theory Spec2Isabelle
  imports Complex_Main "HOL-Library.Multiset" "HOL-Library.Monad_Syntax"
begin

section \<open>Data model\<close>

text \<open>
  The lyric records of \<^verbatim>\<open>types.ts\<close>, as the parsers build and read them. Times are
  seconds; the model takes them as real numbers, so JavaScript's floating-point rounding
  (and the values NaN and Infinity) are outside the model. An optional field
  (\<^verbatim>\<open>words?\<close>, \<^verbatim>\<open>translation?\<close>, \<^verbatim>\<open>duration?\<close>) is an \<open>option\<close>. The field
  \<^verbatim>\<open>text\<close> is written \<open>wtext\<close>, \<open>ltext\<close> and \<open>ptext\<close>, the fields \<^verbatim>\<open>time\<close> and
  \<^verbatim>\<open>words\<close> of an intermediate entry \<open>ptime\<close> and \<open>pwords\<close>.
\<close>

record LyricWord =
  wtext :: string
  startTime :: real
  endTime :: real

record LyricLine =
  time :: real
  ltext :: string
  words :: "LyricWord list option"
  translation :: "string option"
  isPreciseTiming :: bool
  duration :: "real option"

record ParsedLineData =
  ptime :: real
  ptext :: string
  pwords :: "LyricWord list"
  tagCount :: nat
  originalIndex :: nat
  isMetadata :: bool

text \<open>
  The helpers of \<^verbatim>\<open>utils.ts\<close> and \<^verbatim>\<open>types.ts\<close> that the parsers only call, and
  \<^verbatim>\<open>JSON.parse\<close>. They are parameters of the model: every theorem below holds for each
  choice of them. \<open>jsonLine U line\<close> is \<open>Some (t, text)\<close> when \<^verbatim>\<open>JSON.parse(line)\<close>
  returns an object whose \<^verbatim>\<open>c\<close> is an array, with \<open>t\<close> the value of \<^verbatim>\<open>json.t || 0\<close>
  and \<open>text\<close> the \<^verbatim>\<open>tx\<close> fragments joined; it is \<open>None\<close> when the parse throws or
  \<^verbatim>\<open>c\<close> is no array.
\<close>

record utils =
  isMetadataLine :: "string \<Rightarrow> bool"
  hasMeaningfulContent :: "ParsedLineData \<Rightarrow> bool"
  getEntryDisplayText :: "ParsedLineData \<Rightarrow> string"
  mergePunctuationWords :: "LyricWord list \<Rightarrow> LyricWord list"
  normalizeTimeKey :: "real \<Rightarrow> real"
  defaultDuration :: real
  jsonLine :: "string \<Rightarrow> (real \<times> string) option"

section \<open>Strings\<close>

text \<open>
  A string is a list of 8-bit characters, read as the code points U+0000 to U+00FF; text
  with other characters is outside the model. On these strings
  \<^verbatim>\<open>String.prototype.trim\<close> removes the white space and line terminators of the
  language in that range: tab, line feed, vertical tab, form feed, carriage return, space
  and no-break space (U+00A0). \<^verbatim>\<open>toLowerCase\<close> folds the upper-case letters of the
  range, A to Z and U+00C0 to U+00DE without the multiplication sign U+00D7, to the letter
  32 code points above, and leaves every other character.
\<close>

definition isSpace :: "char \<Rightarrow> bool" where
  "isSpace c =
     (c \<in> set [CHR 0x09, CHR 0x0A, CHR 0x0B, CHR 0x0C, CHR 0x0D, CHR '' '', CHR 0xA0])"

definition trim :: "string \<Rightarrow> string" where
  "trim s = rev (dropWhile isSpace (rev (dropWhile isSpace s)))"

definition upperLetters :: string where
  "upperLetters =
     ''ABCDEFGHIJKLMNOPQRSTUVWXYZ''
       @ [CHR 0xC0, CHR 0xC1, CHR 0xC2, CHR 0xC3, CHR 0xC4, CHR 0xC5, CHR 0xC6, CHR 0xC7,
          CHR 0xC8, CHR 0xC9, CHR 0xCA, CHR 0xCB, CHR 0xCC, CHR 0xCD, CHR 0xCE, CHR 0xCF,
          CHR 0xD0, CHR 0xD1, CHR 0xD2, CHR 0xD3, CHR 0xD4, CHR 0xD5, CHR 0xD6, CHR 0xD8,
          CHR 0xD9, CHR 0xDA, CHR 0xDB, CHR 0xDC, CHR 0xDD, CHR 0xDE]"

definition lowerLetters :: string where
  "lowerLetters =
     ''abcdefghijklmnopqrstuvwxyz''
       @ [CHR 0xE0, CHR 0xE1, CHR 0xE2, CHR 0xE3, CHR 0xE4, CHR 0xE5, CHR 0xE6, CHR 0xE7,
          CHR 0xE8, CHR 0xE9, CHR 0xEA, CHR 0xEB, CHR 0xEC, CHR 0xED, CHR 0xEE, CHR 0xEF,
          CHR 0xF0, CHR 0xF1, CHR 0xF2, CHR 0xF3, CHR 0xF4, CHR 0xF5, CHR 0xF6, CHR 0xF8,
          CHR 0xF9, CHR 0xFA, CHR 0xFB, CHR 0xFC, CHR 0xFD, CHR 0xFE]"

definition lowerChar :: "char \<Rightarrow> char" where
  "lowerChar c = (case map_of (zip upperLetters lowerLetters) c of Some d \<Rightarrow> d | None \<Rightarrow> c)"

definition toLowerCase :: "string \<Rightarrow> string" where
  "toLowerCase s = map lowerChar s"

text \<open>\<^verbatim>\<open>parts.join("\n")\<close> and \<^verbatim>\<open>content.split("\n")\<close>.\<close>

fun joinNl :: "string list \<Rightarrow> string" where
  "joinNl [] = []"
| "joinNl [p] = p"
| "joinNl (p # q # ps) = p @ [CHR 0x0A] @ joinNl (q # ps)"

fun splitNl :: "string \<Rightarrow> string list" where
  "splitNl [] = [[]]"
| "splitNl (c # cs) =
     (if c = CHR 0x0A then [] # splitNl cs
      else (case splitNl cs of l # ls \<Rightarrow> (c # l) # ls | [] \<Rightarrow> [[c]]))"

text \<open>\<^verbatim>\<open>a || b\<close> on strings: the empty string is falsy.\<close>

definition orElse :: "string \<Rightarrow> string \<Rightarrow> string" where
  "orElse a b = (if a \<noteq> [] then a else b)"

definition startsWith :: "string \<Rightarrow> string \<Rightarrow> bool" where
  "startsWith p s = (take (length p) s = p)"

definition endsWith :: "string \<Rightarrow> string \<Rightarrow> bool" where
  "endsWith p s = (length p \<le> length s \<and> drop (length s - length p) s = p)"

fun includesStr :: "string \<Rightarrow> string \<Rightarrow> bool" where
  "includesStr p [] = (p = [])"
| "includesStr p (c # cs) = (take (length p) (c # cs) = p \<or> includesStr p cs)"

definition isDigit :: "char \<Rightarrow> bool" where
  "isDigit c = (c \<in> set ''0123456789'')"

definition digitVal :: "char \<Rightarrow> nat" where
  "digitVal c =
     (case map_of (zip ''0123456789'' [0, 1, 2, 3, 4, 5, 6, 7, 8, 9]) c of
        Some d \<Rightarrow> d
      | None \<Rightarrow> 0)"

text \<open>\<^verbatim>\<open>parseInt(s, 10)\<close> on a string that a \<^verbatim>\<open>\d+\<close> group captured.\<close>

definition parseInt :: "string \<Rightarrow> nat" where
  "parseInt s = foldl (\<lambda>n c. 10 * n + digitVal c) 0 s"

section \<open>Sorting with a comparator\<close>

text \<open>
  \<^verbatim>\<open>Array.prototype.sort(cmp)\<close> is stable. Where \<open>cmp\<close> orders the elements
  consistently the result is the one stable arrangement, which this insertion sort
  computes; where \<open>cmp\<close> is not transitive on the elements the language leaves the
  order to the implementation, and the theorems about sorted output state the
  transitivity they need.
\<close>

fun insertBy :: "('a \<Rightarrow> 'a \<Rightarrow> real) \<Rightarrow> 'a \<Rightarrow> 'a list \<Rightarrow> 'a list" where
  "insertBy cmp x [] = [x]"
| "insertBy cmp x (y # ys) = (if cmp x y \<le> 0 then x # y # ys else y # insertBy cmp x ys)"

definition sortBy :: "('a \<Rightarrow> 'a \<Rightarrow> real) \<Rightarrow> 'a list \<Rightarrow> 'a list" where
  "sortBy cmp xs = foldr (insertBy cmp) xs []"

section \<open>Time tags\<close>

text \<open>
  Modelled from the spec: \<^verbatim>\<open>parseTimeTag\<close> is defined in \<^verbatim>\<open>utils.ts\<close>, which is not
  among the sources. The specification gives it as: parses \<^verbatim>\<open>mm:ss.xx\<close> (hundredths or
  milliseconds, two to three fractional digits) into seconds; fails only on malformed
  numeric groups. Failure is \<open>None\<close>; a numeric group is a non-empty run of digits.
\<close>

definition numericGroup :: "string \<Rightarrow> bool" where
  "numericGroup s = (s \<noteq> [] \<and> list_all isDigit s)"

definition parseTimeTag :: "string \<Rightarrow> real option" where
  "parseTimeTag tag =
     (let mm = takeWhile (\<lambda>c. c \<noteq> CHR '':'') tag;
          afterColon = drop 1 (dropWhile (\<lambda>c. c \<noteq> CHR '':'') tag);
          ss = takeWhile (\<lambda>c. c \<noteq> CHR ''.'') afterColon;
          frac = drop 1 (dropWhile (\<lambda>c. c \<noteq> CHR ''.'') afterColon)
      in if numericGroup mm \<and> numericGroup ss \<and> numericGroup frac
         then Some (real (parseInt mm) * 60 + real (parseInt ss)
                    + real (parseInt frac) / 10 ^ length frac)
         else None)"

text \<open>
  The template string \<^verbatim>\<open>`${m[1]}:${m[2]}.${m[3]}`\<close> that every call site builds from
  the three groups of a match and hands to \<^verbatim>\<open>parseTimeTag\<close>.
\<close>

definition tagTime :: "string \<times> string \<times> string \<Rightarrow> real option" where
  "tagTime g = (case g of (m1, m2, m3) \<Rightarrow> parseTimeTag (m1 @ '':'' @ m2 @ ''.'' @ m3))"

text \<open>
  The timestamp form of the time-tag expressions: two digits, two digits, and two to
  three digits.
\<close>

definition timestampGroups :: "string \<times> string \<times> string \<Rightarrow> bool" where
  "timestampGroups g =
     (case g of (m1, m2, m3) \<Rightarrow>
        length m1 = 2 \<and> list_all isDigit m1 \<and> length m2 = 2 \<and> list_all isDigit m2
        \<and> (length m3 = 2 \<or> length m3 = 3) \<and> list_all isDigit m3)"

text \<open>
  The regular expressions, matched at the head of a string. \<open>takeDigits n\<close> is
  \<^verbatim>\<open>\d{n}\<close>, \<open>expect c\<close> a literal character. \<open>matchTimeTag opn cls\<close> is
  \<^verbatim>\<open>\[(\d{2}):(\d{2})\.(\d{2,3})\]\<close> for the brackets \<open>opn\<close> and \<open>cls\<close>: it returns
  the three groups and the text after the match. The last group is greedy: three digits
  are tried before two.
\<close>

definition takeDigits :: "nat \<Rightarrow> string \<Rightarrow> (string \<times> string) option" where
  "takeDigits n s =
     (if n \<le> length s \<and> list_all isDigit (take n s) then Some (take n s, drop n s) else None)"

definition expect :: "char \<Rightarrow> string \<Rightarrow> string option" where
  "expect c s = (case s of x # rest \<Rightarrow> if x = c then Some rest else None | [] \<Rightarrow> None)"

definition fractionThenClose ::
  "nat \<Rightarrow> char \<Rightarrow> string \<Rightarrow> (string \<times> string) option" where
  "fractionThenClose n cls s =
     do { (fr, s1) \<leftarrow> takeDigits n s; rest \<leftarrow> expect cls s1; Some (fr, rest) }"

definition matchTimeTag ::
  "char \<Rightarrow> char \<Rightarrow> string \<Rightarrow> ((string \<times> string \<times> string) \<times> string) option" where
  "matchTimeTag opn cls s =
     do { s1 \<leftarrow> expect opn s;
          (mm, s2) \<leftarrow> takeDigits 2 s1;
          s3 \<leftarrow> expect (CHR '':'') s2;
          (ss, s4) \<leftarrow> takeDigits 2 s3;
          s5 \<leftarrow> expect (CHR ''.'') s4;
          (fr, rest) \<leftarrow> (case fractionThenClose 3 cls s5 of
                           Some r \<Rightarrow> Some r
                         | None \<Rightarrow> fractionThenClose 2 cls s5);
          Some ((mm, ss, fr), rest) }"

lemma takeDigits_length:
  "takeDigits n s = Some (d, rest) \<Longrightarrow> length rest \<le> length s"
  by (auto simp: takeDigits_def split: if_splits)

lemma expect_length:
  "expect c s = Some rest \<Longrightarrow> length rest < length s"
  by (auto simp: expect_def split: list.splits if_splits)

lemma fractionThenClose_length:
  "fractionThenClose n cls s = Some (fr, rest) \<Longrightarrow> length rest < length s"
  by (auto simp: fractionThenClose_def split: Option.bind_splits
      dest!: takeDigits_length expect_length)

lemma matchTimeTag_length:
  "matchTimeTag opn cls s = Some (g, rest) \<Longrightarrow> length rest < length s"
  by (auto simp: matchTimeTag_def split: Option.bind_splits option.splits
      dest!: takeDigits_length expect_length fractionThenClose_length)

text \<open>
  \<^verbatim>\<open>[...s.matchAll(/\[(\d{2}):(\d{2})\.(\d{2,3})\]/g)]\<close>: the matches from left to
  right, each with the text that follows it (the slice from
  \<^verbatim>\<open>match.index + match[0].length\<close>). After a match the scan goes on behind it,
  otherwise one character further.
\<close>

function matchAllTimeTags :: "string \<Rightarrow> ((string \<times> string \<times> string) \<times> string) list" where
  "matchAllTimeTags [] = []"
| "matchAllTimeTags (c # cs) =
     (case matchTimeTag (CHR ''['') (CHR '']'') (c # cs) of
        Some (g, rest) \<Rightarrow> (g, rest) # matchAllTimeTags rest
      | None \<Rightarrow> matchAllTimeTags cs)"
  by pat_completeness auto
termination
  by (relation "measure length") (auto dest: matchTimeTag_length)

text \<open>
  \<^verbatim>\<open>WORD_TAG_REGEX = /<(\d{2}):(\d{2})\.(\d{2,3})>([^<]*)/g\<close>: the groups of the tag
  and the word text up to the next \<^verbatim>\<open><\<close>.
\<close>

function matchAllWordTags :: "string \<Rightarrow> ((string \<times> string \<times> string) \<times> string) list" where
  "matchAllWordTags [] = []"
| "matchAllWordTags (c # cs) =
     (case matchTimeTag (CHR ''<'') (CHR ''>'') (c # cs) of
        Some (g, rest) \<Rightarrow>
          (g, takeWhile (\<lambda>x. x \<noteq> CHR ''<'') rest)
            # matchAllWordTags (dropWhile (\<lambda>x. x \<noteq> CHR ''<'') rest)
      | None \<Rightarrow> matchAllWordTags cs)"
  by pat_completeness auto
termination
proof (relation "measure length")
  fix c cs x2 x y
  assume "matchTimeTag (CHR ''<'') (CHR ''>'') (c # cs) = Some x2" "(x, y) = x2"
  then have "length y < length (c # cs)"
    using matchTimeTag_length [of "CHR ''<''" "CHR ''>''" "c # cs" x y] by simp
  moreover have "length (dropWhile (\<lambda>x. x \<noteq> CHR ''<'') y) \<le> length y"
    by (rule length_dropWhile_le)
  ultimately show "(dropWhile (\<lambda>x. x \<noteq> CHR ''<'') y, c # cs) \<in> measure length"
    by simp
qed simp_all

text \<open>\<^verbatim>\<open>content.replace(/<[^>]+>/g, "")\<close>.\<close>

function stripTags :: "string \<Rightarrow> string" where
  "stripTags [] = []"
| "stripTags (c # cs) =
     (if c = CHR ''<'' \<and> takeWhile (\<lambda>x. x \<noteq> CHR ''>'') cs \<noteq> []
         \<and> dropWhile (\<lambda>x. x \<noteq> CHR ''>'') cs \<noteq> []
      then stripTags (tl (dropWhile (\<lambda>x. x \<noteq> CHR ''>'') cs))
      else c # stripTags cs)"
  by pat_completeness auto
termination
proof (relation "measure length")
  fix c :: char and cs :: string
  have "length (tl (dropWhile (\<lambda>x. x \<noteq> CHR ''>'') cs)) \<le> length cs"
    using length_dropWhile_le [of "\<lambda>x. x \<noteq> CHR ''>''" cs] by simp
  then show "(tl (dropWhile (\<lambda>x. x \<noteq> CHR ''>'') cs), c # cs) \<in> measure length"
    by simp
qed simp_all

text \<open>
  Modelled from the spec: \<^verbatim>\<open>LRC_LINE_REGEX\<close> is defined in \<^verbatim>\<open>utils.ts\<close>. The
  specification gives the plain line-timestamp grammar as a leading time tag
  \<^verbatim>\<open>[mm:ss.xx]\<close> followed by free text: the tag at the head of the line, then the text
  up to the end of the line as the fourth group.
\<close>

definition dotStar :: "string \<Rightarrow> string" where
  "dotStar s = takeWhile (\<lambda>c. c \<noteq> CHR 0x0A \<and> c \<noteq> CHR 0x0D) s"

definition matchLrcLine :: "string \<Rightarrow> ((string \<times> string \<times> string) \<times> string) option" where
  "matchLrcLine s =
     do { (g, rest) \<leftarrow> matchTimeTag (CHR ''['') (CHR '']'') s; Some (g, dotStar rest) }"

text \<open>
  \<^verbatim>\<open>YRC_LINE_REGEX = /^\[(\d+),(\d+)\](.*)/\<close> and
  \<^verbatim>\<open>YRC_WORD_REGEX = /\((\d+),(\d+),(\d+)\)([^\(]*)/g\<close>. \<open>digits1\<close> is \<^verbatim>\<open>(\d+)\<close>.
\<close>

definition digits1 :: "string \<Rightarrow> (string \<times> string) option" where
  "digits1 s =
     (if takeWhile isDigit s \<noteq> [] then Some (takeWhile isDigit s, dropWhile isDigit s)
      else None)"

definition matchYrcLine :: "string \<Rightarrow> (string \<times> string \<times> string) option" where
  "matchYrcLine s =
     do { s1 \<leftarrow> expect (CHR ''['') s;
          (m1, s2) \<leftarrow> digits1 s1;
          s3 \<leftarrow> expect (CHR '','') s2;
          (m2, s4) \<leftarrow> digits1 s3;
          s5 \<leftarrow> expect (CHR '']'') s4;
          Some (m1, m2, dotStar s5) }"

definition matchYrcWord :: "string \<Rightarrow> ((string \<times> string \<times> string) \<times> string) option" where
  "matchYrcWord s =
     do { s1 \<leftarrow> expect (CHR ''('') s;
          (m1, s2) \<leftarrow> digits1 s1;
          s3 \<leftarrow> expect (CHR '','') s2;
          (m2, s4) \<leftarrow> digits1 s3;
          s5 \<leftarrow> expect (CHR '','') s4;
          (m3, s6) \<leftarrow> digits1 s5;
          rest \<leftarrow> expect (CHR '')'') s6;
          Some ((m1, m2, m3), rest) }"

lemma digits1_length:
  "digits1 s = Some (d, rest) \<Longrightarrow> length rest \<le> length s"
  by (auto simp: digits1_def length_dropWhile_le split: if_splits)

lemma matchYrcWord_length:
  "matchYrcWord s = Some (g, rest) \<Longrightarrow> length rest < length s"
  by (auto simp: matchYrcWord_def split: Option.bind_splits
      dest!: digits1_length expect_length)

function matchAllYrcWords :: "string \<Rightarrow> ((string \<times> string \<times> string) \<times> string) list" where
  "matchAllYrcWords [] = []"
| "matchAllYrcWords (c # cs) =
     (case matchYrcWord (c # cs) of
        Some (g, rest) \<Rightarrow>
          (g, takeWhile (\<lambda>x. x \<noteq> CHR ''('') rest)
            # matchAllYrcWords (dropWhile (\<lambda>x. x \<noteq> CHR ''('') rest)
      | None \<Rightarrow> matchAllYrcWords cs)"
  by pat_completeness auto
termination
proof (relation "measure length")
  fix c cs x2 x y
  assume "matchYrcWord (c # cs) = Some x2" "(x, y) = x2"
  then have "length y < length (c # cs)"
    using matchYrcWord_length [of "c # cs" x y] by simp
  moreover have "length (dropWhile (\<lambda>x. x \<noteq> CHR ''('') y) \<le> length y"
    by (rule length_dropWhile_le)
  ultimately show "(dropWhile (\<lambda>x. x \<noteq> CHR ''('') y, c # cs) \<in> measure length"
    by simp
qed simp_all

section \<open>Line-timestamp parser\<close>

text \<open>
  Modelled from the spec: \<^verbatim>\<open>createWord\<close> and \<^verbatim>\<open>fixWordEndTimes\<close> are defined in
  \<^verbatim>\<open>utils.ts\<close>. The specification gives \<^verbatim>\<open>createWord(text, start, end)\<close> as building
  the word record, and the pass after grouping as clamping word end-times so that no
  word's end exceeds the next line's time.
\<close>

definition createWord :: "string \<Rightarrow> real \<Rightarrow> real \<Rightarrow> LyricWord" where
  "createWord t s e = \<lparr>wtext = t, startTime = s, endTime = e\<rparr>"

fun fixWordEndTimes :: "LyricLine list \<Rightarrow> LyricLine list" where
  "fixWordEndTimes [] = []"
| "fixWordEndTimes [l] = [l]"
| "fixWordEndTimes (l # n # rest) =
     l\<lparr>words := map_option
           (map (\<lambda>w. if endTime w > time n then w\<lparr>endTime := time n\<rparr> else w)) (words l)\<rparr>
       # fixWordEndTimes (n # rest)"

text \<open>
  \<^verbatim>\<open>parseWordTags\<close>: the loop over the word-tag matches. A word ends where the next
  tag starts, the last one a second after its start; a tag with empty text yields no
  word. The result is \<open>None\<close> when \<^verbatim>\<open>parseTimeTag\<close> fails.
\<close>

fun wordsOfMatches :: "((string \<times> string \<times> string) \<times> string) list \<Rightarrow> LyricWord list option" where
  "wordsOfMatches [] = Some []"
| "wordsOfMatches (m # ms) =
     do { wordTime \<leftarrow> tagTime (fst m);
          endT \<leftarrow> (case ms of nextMatch # _ \<Rightarrow> tagTime (fst nextMatch)
                   | [] \<Rightarrow> Some (wordTime + 1.0));
          rest \<leftarrow> wordsOfMatches ms;
          Some (if snd m \<noteq> [] then createWord (snd m) wordTime endT # rest else rest) }"

definition parseWordTags :: "utils \<Rightarrow> string \<Rightarrow> (string \<times> LyricWord list \<times> nat) option" where
  "parseWordTags U content =
     (let matches = matchAllWordTags content
      in do { ws \<leftarrow> wordsOfMatches matches;
              Some (trim (stripTags content), mergePunctuationWords U ws, length matches) })"

definition parseLrcLine :: "utils \<Rightarrow> string \<Rightarrow> nat \<Rightarrow> ParsedLineData list option" where
  "parseLrcLine U line index =
     (let trimmed = trim line
      in if trimmed = [] then Some []
         else let timeMatches = matchAllTimeTags trimmed
              in if length timeMatches = 0 then Some []
                 else do {
                   (txt, ws, cnt) \<leftarrow> parseWordTags U (trim (snd (last timeMatches)));
                   those (map (\<lambda>m. do {
                       t \<leftarrow> tagTime (fst m);
                       Some \<lparr>ptime = t, ptext = txt, pwords = ws, tagCount = cnt,
                             originalIndex = index, isMetadata = isMetadataLine U txt\<rparr> })
                     timeMatches) })"

text \<open>The first pass of \<^verbatim>\<open>parseLrc\<close>: every line of the content, with its index.\<close>

definition parseLrcLines :: "utils \<Rightarrow> string \<Rightarrow> ParsedLineData list option" where
  "parseLrcLines U content =
     map_option concat
       (those (map (\<lambda>p. parseLrcLine U (snd p) (fst p)) (enumerate 0 (splitNl content))))"

text \<open>
  The comparator of the two entry sorts (\<^verbatim>\<open>parseLrc\<close> and \<^verbatim>\<open>parseNeteaseLyrics\<close>, both
  with \<open>eps = 0.01\<close>): by time when the times differ by more than \<open>eps\<close>, otherwise by
  original index.
\<close>

definition compareEntries :: "real \<Rightarrow> ParsedLineData \<Rightarrow> ParsedLineData \<Rightarrow> real" where
  "compareEntries eps a b =
     (let diff = ptime a - ptime b
      in if \<bar>diff\<bar> > eps then diff else real (originalIndex a) - real (originalIndex b))"

text \<open>
  \<^verbatim>\<open>groupAndMergeLines\<close>. \<open>withinGroup\<close> is the condition of the inner loop,
  \<open>compareGroup\<close> the comparator of \<^verbatim>\<open>group.sort\<close>. The main entry is an object of the
  group and \<^verbatim>\<open>entry !== main\<close> compares references; every entry is a fresh object, so
  the model finds the position of the main entry in the sorted group and removes that
  position. \<open>groupLine\<close> is the body of one iteration behind the inner loop: no line when
  the main entry is metadata, otherwise the line with its \<^verbatim>\<open>_originalIndex\<close>.
\<close>

definition withinGroup :: "ParsedLineData \<Rightarrow> ParsedLineData \<Rightarrow> bool" where
  "withinGroup current e = (\<bar>ptime e - ptime current\<bar> < 0.1)"

definition compareGroup :: "ParsedLineData \<Rightarrow> ParsedLineData \<Rightarrow> real" where
  "compareGroup a b =
     (if tagCount a \<noteq> tagCount b then real (tagCount b) - real (tagCount a)
      else real (originalIndex a) - real (originalIndex b))"

fun findIndex :: "('a \<Rightarrow> bool) \<Rightarrow> 'a list \<Rightarrow> nat option" where
  "findIndex P [] = None"
| "findIndex P (x # xs) = (if P x then Some 0 else map_option Suc (findIndex P xs))"

definition mainIndex :: "utils \<Rightarrow> ParsedLineData list \<Rightarrow> nat" where
  "mainIndex U sortedGroup =
     (case findIndex (\<lambda>entry. \<not> isMetadata entry \<and> hasMeaningfulContent U entry) sortedGroup of
        Some i \<Rightarrow> i
      | None \<Rightarrow> (case findIndex (\<lambda>entry. hasMeaningfulContent U entry) sortedGroup of
                  Some i \<Rightarrow> i
                | None \<Rightarrow> 0))"

definition removeAt :: "nat \<Rightarrow> 'a list \<Rightarrow> 'a list" where
  "removeAt i xs = take i xs @ drop (Suc i) xs"

definition wordsField :: "ParsedLineData \<Rightarrow> LyricWord list option" where
  "wordsField e = (if length (pwords e) > 0 then Some (pwords e) else None)"

definition differsFromMain :: "string \<Rightarrow> string \<Rightarrow> bool" where
  "differsFromMain normalizedMain t =
     (length t > 0 \<and> (normalizedMain = [] \<or> toLowerCase t \<noteq> normalizedMain))"

definition groupLine :: "utils \<Rightarrow> ParsedLineData list \<Rightarrow> (LyricLine \<times> nat) list" where
  "groupLine U grp =
     (let sortedGroup = sortBy compareGroup grp;
          i = mainIndex U sortedGroup;
          main = sortedGroup ! i
      in if isMetadata main then []
         else let mainText = orElse (orElse (getEntryDisplayText U main) (ptext main)) [];
                  normalizedMain = toLowerCase mainText;
                  translationParts =
                    filter (differsFromMain normalizedMain)
                      (map (getEntryDisplayText U)
                        (filter (\<lambda>entry. \<not> isMetadata entry \<and> hasMeaningfulContent U entry)
                          (removeAt i sortedGroup)));
                  translation =
                    (if length translationParts > 0 then Some (joinNl translationParts) else None)
              in [(\<lparr>time = ptime main, ltext = mainText, words = wordsField main,
                     translation = (case translation of
                                      Some t \<Rightarrow> if t \<noteq> [] then Some t else None
                                    | None \<Rightarrow> None),
                     isPreciseTiming = False, duration = None\<rparr>,
                   originalIndex main)])"

function groupLoop :: "utils \<Rightarrow> ParsedLineData list \<Rightarrow> (LyricLine \<times> nat) list" where
  "groupLoop U [] = []"
| "groupLoop U (current # rest) =
     groupLine U (current # takeWhile (withinGroup current) rest)
       @ groupLoop U (dropWhile (withinGroup current) rest)"
  by pat_completeness auto
termination
proof (relation "measure (\<lambda>p. length (snd p))")
  fix U :: utils and current :: ParsedLineData and rest :: "ParsedLineData list"
  have "length (dropWhile (withinGroup current) rest) \<le> length rest"
    by (rule length_dropWhile_le)
  then show "((U, dropWhile (withinGroup current) rest), (U, current # rest))
               \<in> measure (\<lambda>p. length (snd p))"
    by simp
qed simp

definition groupAndMergeLines :: "utils \<Rightarrow> ParsedLineData list \<Rightarrow> LyricLine list" where
  "groupAndMergeLines U entries = map fst (groupLoop U entries)"

section \<open>Duration post-processor\<close>

text \<open>
  Modelled from the spec: \<^verbatim>\<open>processLyricsDurations\<close> is defined in \<^verbatim>\<open>utils.ts\<close>. The
  specification gives it as: for each line in final order,
  \<^verbatim>\<open>duration = nextLine.time - thisLine.time\<close>; the last line receives a default, here
  the parameter \<open>defaultDuration\<close>.
\<close>

fun processLyricsDurations :: "utils \<Rightarrow> LyricLine list \<Rightarrow> LyricLine list" where
  "processLyricsDurations U [] = []"
| "processLyricsDurations U [l] = [l\<lparr>duration := Some (defaultDuration U)\<rparr>]"
| "processLyricsDurations U (l # n # rest) =
     l\<lparr>duration := Some (time n - time l)\<rparr> # processLyricsDurations U (n # rest)"

definition parseLrc :: "utils \<Rightarrow> string \<Rightarrow> LyricLine list option" where
  "parseLrc U content =
     do { parsed \<leftarrow> parseLrcLines U content;
          let entries = sortBy (compareEntries 0.01) parsed;
              result = groupAndMergeLines U entries
          in Some (processLyricsDurations U (fixWordEndTimes result)) }"

section \<open>Word-synced parser\<close>

definition parseJsonLine :: "utils \<Rightarrow> string \<Rightarrow> nat \<Rightarrow> ParsedLineData option" where
  "parseJsonLine U line index =
     (case jsonLine U line of
        Some (t, txt) \<Rightarrow>
          Some \<lparr>ptime = t / 1000, ptext = txt, pwords = [], tagCount = 0,
                originalIndex = index, isMetadata = True\<rparr>
      | None \<Rightarrow> None)"

definition yrcWord :: "(string \<times> string \<times> string) \<times> string \<Rightarrow> LyricWord" where
  "yrcWord m =
     (case m of ((m1, m2, m3), wordText) \<Rightarrow>
        let wordStart = real (parseInt m1) / 1000;
            wordDuration = real (parseInt m2) / 1000
        in createWord wordText wordStart (wordStart + wordDuration))"

definition parseYrcLine :: "utils \<Rightarrow> string \<Rightarrow> nat \<Rightarrow> ParsedLineData option" where
  "parseYrcLine U line index =
     (case matchYrcLine line of
        None \<Rightarrow> None
      | Some (m1, m2, content) \<Rightarrow>
          let startTimeMs = parseInt m1;
              wordMatches = matchAllYrcWords content;
              ws = map yrcWord wordMatches;
              fullText = (if length wordMatches > 0 then concat (map snd wordMatches)
                          else content);
              mergedWords = mergePunctuationWords U ws
          in Some \<lparr>ptime = real startTimeMs / 1000, ptext = fullText, pwords = mergedWords,
                   tagCount = length mergedWords + 1000, originalIndex = index,
                   isMetadata = isMetadataLine U fullText\<rparr>)"

text \<open>
  \<^verbatim>\<open>parseFallbackLrcLine\<close>: \<open>Some None\<close> is the \<^verbatim>\<open>null\<close> of a line that does not
  match, \<open>None\<close> a failure of \<^verbatim>\<open>parseTimeTag\<close>.
\<close>

definition parseFallbackLrcLine :: "utils \<Rightarrow> string \<Rightarrow> nat \<Rightarrow> ParsedLineData option option" where
  "parseFallbackLrcLine U line index =
     (case matchLrcLine line of
        None \<Rightarrow> Some None
      | Some (g, m4) \<Rightarrow>
          do { t \<leftarrow> tagTime g;
               let txt = trim m4
               in Some (Some \<lparr>ptime = t, ptext = txt, pwords = [], tagCount = 0,
                             originalIndex = index, isMetadata = isMetadataLine U txt\<rparr>) })"

text \<open>
  \<^verbatim>\<open>fixAbnormalWordDurations\<close>. The loop writes \<^verbatim>\<open>word.endTime\<close> only and reads the
  start of the next word and the time of the next entry, which it never writes, so a map
  over the words computes the same. \<open>nextTime\<close> is the time of the next entry, if any.
\<close>

fun fixWords :: "real option \<Rightarrow> LyricWord list \<Rightarrow> LyricWord list" where
  "fixWords nextTime [] = []"
| "fixWords nextTime (word # ws) =
     (let maxEndTime = (case ws of nextWord # _ \<Rightarrow> startTime nextWord
                        | [] \<Rightarrow> (case nextTime of Some t \<Rightarrow> t
                                 | None \<Rightarrow> startTime word + 2.0));
          e1 = (if endTime word - startTime word > 2.0
                then min (startTime word + 2.0) maxEndTime else endTime word);
          e2 = (if e1 > maxEndTime then maxEndTime else e1);
          e3 = (if e2 \<le> startTime word then startTime word + 0.1 else e2)
      in word\<lparr>endTime := e3\<rparr> # fixWords nextTime ws)"

fun fixAbnormalWordDurations :: "ParsedLineData list \<Rightarrow> ParsedLineData list" where
  "fixAbnormalWordDurations [] = []"
| "fixAbnormalWordDurations (entry # es) =
     entry\<lparr>pwords := fixWords (case es of nextEntry # _ \<Rightarrow> Some (ptime nextEntry)
                                | [] \<Rightarrow> None) (pwords entry)\<rparr>
       # fixAbnormalWordDurations es"

text \<open>
  \<^verbatim>\<open>mergeYrcWithTranslations\<close>. A bucket is a main entry with its translations.
  \<open>closestBucket\<close> is the inner \<^verbatim>\<open>buckets.forEach\<close>: \<open>None\<close> stands for
  \<^verbatim>\<open>closestIndex = -1\<close> with \<^verbatim>\<open>minDiff = Infinity\<close>, below which every difference lies.
  \<open>assignLine\<close> is the body of \<^verbatim>\<open>otherLines.forEach\<close> on the buckets and the orphans.
\<close>

type_synonym bucket = "ParsedLineData \<times> string list"

definition closestStep ::
  "ParsedLineData \<Rightarrow> nat \<times> bucket \<Rightarrow> (nat \<times> real) option \<Rightarrow> (nat \<times> real) option" where
  "closestStep line ib best =
     (let diff = \<bar>ptime (fst (snd ib)) - ptime line\<bar>
      in case best of
           None \<Rightarrow> Some (fst ib, diff)
         | Some (closestIndex, minDiff) \<Rightarrow>
             if diff < minDiff then Some (fst ib, diff) else best)"

definition closestBucket :: "bucket list \<Rightarrow> ParsedLineData \<Rightarrow> (nat \<times> real) option" where
  "closestBucket buckets line = fold (closestStep line) (enumerate 0 buckets) None"

definition pushTranslation :: "bucket list \<Rightarrow> nat \<Rightarrow> string \<Rightarrow> bucket list" where
  "pushTranslation buckets i t = buckets[i := (fst (buckets ! i), snd (buckets ! i) @ [t])]"

definition assignLine ::
  "utils \<Rightarrow> ParsedLineData \<Rightarrow> bucket list \<times> ParsedLineData list
     \<Rightarrow> bucket list \<times> ParsedLineData list" where
  "assignLine U line st =
     (case st of (buckets, orphans) \<Rightarrow>
        if isMetadata line then (buckets, orphans)
        else (case closestBucket buckets line of
                Some (closestIndex, minDiff) \<Rightarrow>
                  if minDiff < 3.0
                  then (let translationText = getEntryDisplayText U line
                        in if length translationText > 0
                           then (pushTranslation buckets closestIndex translationText, orphans)
                           else (buckets, orphans @ [line]))
                  else (buckets, orphans @ [line])
              | None \<Rightarrow> (buckets, orphans @ [line])))"

definition bucketLine :: "utils \<Rightarrow> bucket \<Rightarrow> (LyricLine \<times> nat) list" where
  "bucketLine U b =
     (case b of (main, assigned) \<Rightarrow>
        let mainText = getEntryDisplayText U main;
            normalizedMain = toLowerCase mainText;
            translations = filter (differsFromMain normalizedMain) (map trim assigned)
        in if \<not> isMetadata main
           then [(\<lparr>time = ptime main, ltext = orElse mainText (ptext main),
                   words = wordsField main,
                   translation = (if length translations > 0 then Some (joinNl translations)
                                  else None),
                   isPreciseTiming = True, duration = None\<rparr>,
                  originalIndex main)]
           else [])"

definition orphanLine :: "utils \<Rightarrow> ParsedLineData \<Rightarrow> (LyricLine \<times> nat) list" where
  "orphanLine U orphan =
     (if isMetadata orphan then []
      else [(\<lparr>time = ptime orphan,
              ltext = orElse (getEntryDisplayText U orphan) (ptext orphan),
              words = wordsField orphan, translation = None,
              isPreciseTiming = False, duration = None\<rparr>,
             originalIndex orphan)])"

definition compareResult :: "real \<Rightarrow> LyricLine \<times> nat \<Rightarrow> LyricLine \<times> nat \<Rightarrow> real" where
  "compareResult eps a b =
     (let diff = time (fst a) - time (fst b)
      in if \<bar>diff\<bar> > eps then diff else real (snd a) - real (snd b))"

definition assignOthers :: "utils \<Rightarrow> ParsedLineData list \<Rightarrow> bucket list \<times> ParsedLineData list" where
  "assignOthers U entries =
     (let yrcLines = filter (\<lambda>e. tagCount e \<ge> 1000) entries;
          otherLines = filter (\<lambda>e. tagCount e < 1000) entries
      in fold (assignLine U) otherLines (map (\<lambda>yrc. (yrc, [])) yrcLines, []))"

definition mergeYrcWithTranslations :: "utils \<Rightarrow> ParsedLineData list \<Rightarrow> LyricLine list" where
  "mergeYrcWithTranslations U entries =
     (case assignOthers U entries of (buckets, orphans) \<Rightarrow>
        let result = concat (map (bucketLine U) buckets) @ concat (map (orphanLine U) orphans)
        in map fst (sortBy (compareResult 0.001) result))"

text \<open>
  \<^verbatim>\<open>parseNeteaseLyrics\<close>. \<open>parseNeteaseLine\<close> is the body of the first pass on one line:
  the entries it pushes, \<open>None\<close> on a failure of \<^verbatim>\<open>parseTimeTag\<close>.
\<close>

definition parseNeteaseLine :: "utils \<Rightarrow> string \<Rightarrow> nat \<Rightarrow> ParsedLineData list option" where
  "parseNeteaseLine U line index =
     (let trimmed = trim line
      in if trimmed = [] then Some []
         else (case (if startsWith ''{'' trimmed \<and> endsWith ''}'' trimmed
                     then parseJsonLine U trimmed index else None) of
                 Some parsed \<Rightarrow> Some [parsed]
               | None \<Rightarrow>
                   (case parseYrcLine U trimmed index of
                      Some yrcParsed \<Rightarrow> Some [yrcParsed]
                    | None \<Rightarrow>
                        do { lrcParsed \<leftarrow> parseFallbackLrcLine U trimmed index;
                             Some (case lrcParsed of Some e \<Rightarrow> [e] | None \<Rightarrow> []) })))"

definition parseNeteaseLines :: "utils \<Rightarrow> string \<Rightarrow> ParsedLineData list option" where
  "parseNeteaseLines U content =
     map_option concat
       (those (map (\<lambda>p. parseNeteaseLine U (snd p) (fst p)) (enumerate 0 (splitNl content))))"

definition basicLine :: "utils \<Rightarrow> ParsedLineData \<Rightarrow> LyricLine" where
  "basicLine U e =
     \<lparr>time = ptime e, ltext = orElse (getEntryDisplayText U e) (ptext e),
      words = wordsField e, translation = None, isPreciseTiming = False, duration = None\<rparr>"

definition neteaseFromEntries :: "utils \<Rightarrow> ParsedLineData list \<Rightarrow> LyricLine list" where
  "neteaseFromEntries U parsed =
     (let entries = sortBy (compareEntries 0.01) parsed;
          hasYrc = list_ex (\<lambda>e. tagCount e \<ge> 1000) entries
      in if hasYrc then mergeYrcWithTranslations U entries
         else map (basicLine U)
                (filter (\<lambda>e. \<not> isMetadata e \<and> hasMeaningfulContent U e) entries))"

definition parseNeteaseLyrics :: "utils \<Rightarrow> string \<Rightarrow> LyricLine list option" where
  "parseNeteaseLyrics U content =
     do { parsed \<leftarrow> parseNeteaseLines U content; Some (neteaseFromEntries U parsed) }"

definition isNeteaseFormat :: "string \<Rightarrow> bool" where
  "isNeteaseFormat content =
     list_ex (\<lambda>line. let trimmed = trim line
                     in matchYrcLine trimmed \<noteq> None
                        \<or> (startsWith ''{'' trimmed
                            \<and> includesStr [CHR 0x22, CHR ''c'', CHR 0x22, CHR '':'', CHR ''['']
                                 trimmed))
       (splitNl content)"

section \<open>Translation merger\<close>

text \<open>
  The \<^verbatim>\<open>Map<number, string[]>\<close> of translations is an association list in insertion
  order, which is the order of \<^verbatim>\<open>Map.prototype.forEach\<close>. \<open>mapShift\<close> is
  \<^verbatim>\<open>list.shift()\<close> on the array stored under a key, \<open>mapPush\<close> the \<^verbatim>\<open>push\<close> of
  \<^verbatim>\<open>addEntry\<close>, which adds the key at the end when it is new.
\<close>

type_synonym 'v tmap = "(real \<times> 'v list) list"

definition mapGet :: "'v tmap \<Rightarrow> real \<Rightarrow> 'v list option" where
  "mapGet m k = map_of m k"

definition mapDelete :: "'v tmap \<Rightarrow> real \<Rightarrow> 'v tmap" where
  "mapDelete m k = filter (\<lambda>e. fst e \<noteq> k) m"

definition mapShift :: "'v tmap \<Rightarrow> real \<Rightarrow> 'v tmap" where
  "mapShift m k = map (\<lambda>e. if fst e = k then (fst e, tl (snd e)) else e) m"

definition mapPush :: "'v tmap \<Rightarrow> real \<Rightarrow> 'v \<Rightarrow> 'v tmap" where
  "mapPush m k v =
     (if mapGet m k = None then m @ [(k, [v])]
      else map (\<lambda>e. if fst e = k then (fst e, snd e @ [v]) else e) m)"

definition addEntry :: "utils \<Rightarrow> string tmap \<Rightarrow> real \<Rightarrow> string \<Rightarrow> string tmap" where
  "addEntry U m t txt =
     (let cleaned = trim txt
      in if cleaned = [] \<or> isMetadataLine U cleaned then m
         else mapPush m (normalizeTimeKey U t) cleaned)"

text \<open>
  The body of \<^verbatim>\<open>lines.forEach\<close> in \<^verbatim>\<open>buildTranslationMap\<close>: the map after one raw
  line, \<open>None\<close> on a failure of \<^verbatim>\<open>parseTimeTag\<close>.
\<close>

definition translationLine :: "utils \<Rightarrow> string tmap \<Rightarrow> string \<Rightarrow> string tmap option" where
  "translationLine U m rawLine =
     (let line = trim rawLine
      in if line = [] then Some m
         else (case (if startsWith ''{'' line \<and> endsWith ''}'' line then jsonLine U line
                     else None) of
                 Some (t, txt) \<Rightarrow> Some (addEntry U m (t / 1000) txt)
               | None \<Rightarrow>
                   (case matchYrcLine line of
                      Some (m1, m2, content) \<Rightarrow>
                        let startTimeMs = parseInt m1;
                            matches = matchAllYrcWords content;
                            fullText = (if length matches > 0 then concat (map snd matches)
                                        else content)
                        in Some (addEntry U m (real startTimeMs / 1000) fullText)
                    | None \<Rightarrow>
                        (case matchLrcLine line of
                           Some (g, m4) \<Rightarrow>
                             do { t \<leftarrow> tagTime g; Some (addEntry U m t (trim m4)) }
                         | None \<Rightarrow> Some m))))"

fun translationLines :: "utils \<Rightarrow> string tmap \<Rightarrow> string list \<Rightarrow> string tmap option" where
  "translationLines U m [] = Some m"
| "translationLines U m (rawLine # ls) =
     do { m' \<leftarrow> translationLine U m rawLine; translationLines U m' ls }"

definition buildTranslationMap :: "utils \<Rightarrow> string option \<Rightarrow> string tmap option" where
  "buildTranslationMap U translationContent =
     (case translationContent of
        None \<Rightarrow> Some []
      | Some c \<Rightarrow> if c = [] then Some [] else translationLines U [] (splitNl c))"

text \<open>
  \<^verbatim>\<open>takeTranslationForLine\<close>, with the map passed in and returned. \<open>popBucket\<close> is
  the shift of the first value of a non-empty bucket and the deletion of the bucket that
  it empties. \<open>scanBucket\<close> is the callback of \<^verbatim>\<open>translationMap.forEach\<close> on the pair
  of \<^verbatim>\<open>fallbackKey\<close> (\<open>None\<close> for \<^verbatim>\<open>null\<close>) and \<^verbatim>\<open>minDiff\<close> (\<open>None\<close> for
  \<^verbatim>\<open>Infinity\<close>).
\<close>

definition popBucket :: "'v tmap \<Rightarrow> real \<Rightarrow> 'v list \<Rightarrow> 'v option \<times> 'v tmap" where
  "popBucket m k bucket =
     (Some (hd bucket), if length (tl bucket) = 0 then mapDelete m k else mapShift m k)"

definition scanBucket ::
  "real \<Rightarrow> real \<Rightarrow> real \<times> 'v list \<Rightarrow> real option \<times> real option
     \<Rightarrow> real option \<times> real option" where
  "scanBucket key tolerance e st =
     (if length (snd e) = 0 then st
      else let diff = \<bar>fst e - key\<bar>
           in if diff \<le> tolerance \<and> (case snd st of None \<Rightarrow> True | Some minDiff \<Rightarrow> diff < minDiff)
              then (Some (fst e), Some diff)
              else st)"

definition lineTolerance :: "LyricLine \<Rightarrow> real" where
  "lineTolerance line = (if isPreciseTiming line then 3.0 else 0.25)"

definition takeTranslationForLine ::
  "utils \<Rightarrow> 'v tmap \<Rightarrow> LyricLine \<Rightarrow> 'v option \<times> 'v tmap" where
  "takeTranslationForLine U m line =
     (let key = normalizeTimeKey U (time line);
          direct = mapGet m key
      in if (case direct of Some vs \<Rightarrow> length vs > 0 | None \<Rightarrow> False)
         then popBucket m key (the direct)
         else let tolerance = lineTolerance line;
                  fallbackKey = fst (fold (scanBucket key tolerance) m (None, None))
              in (case fallbackKey of
                    Some fk \<Rightarrow>
                      (case mapGet m fk of
                         Some vs \<Rightarrow> if length vs > 0 then popBucket m fk vs else (None, m)
                       | None \<Rightarrow> (None, m))
                  | None \<Rightarrow> (None, m)))"

text \<open>
  The callback of \<^verbatim>\<open>lines.map\<close> in \<^verbatim>\<open>mergeTranslations\<close>, given the value that
  \<^verbatim>\<open>takeTranslationForLine\<close> returned, and the map over the lines, which threads the
  translation map through the calls.
\<close>

definition attachTranslation :: "LyricLine \<Rightarrow> string option \<Rightarrow> LyricLine" where
  "attachTranslation line external =
     (let trimmedExternal = map_option trim external;
          finalTranslation = (case trimmedExternal of
                                Some t \<Rightarrow> if t \<noteq> [] \<and> length t > 0 then Some t
                                          else translation line
                              | None \<Rightarrow> translation line)
      in if finalTranslation = translation line then line
         else line\<lparr>translation := finalTranslation\<rparr>)"

fun mergeLines :: "utils \<Rightarrow> string tmap \<Rightarrow> LyricLine list \<Rightarrow> LyricLine list" where
  "mergeLines U m [] = []"
| "mergeLines U m (line # ls) =
     (case takeTranslationForLine U m line of
        (external, m') \<Rightarrow> attachTranslation line external # mergeLines U m' ls)"

text \<open>
  The values that the calls of \<^verbatim>\<open>takeTranslationForLine\<close> return during
  \<^verbatim>\<open>lines.map\<close>, in order, and the map that the calls leave. \<open>mapEntries\<close> is the
  multiset of the entries of a translation map, \<open>consumed\<close> the multiset (and
  \<open>consumedList\<close> the list) of the values returned.
\<close>

fun takeAll :: "utils \<Rightarrow> 'v tmap \<Rightarrow> LyricLine list \<Rightarrow> 'v option list \<times> 'v tmap" where
  "takeAll U m [] = ([], m)"
| "takeAll U m (line # ls) =
     (case takeTranslationForLine U m line of
        (external, m') \<Rightarrow> (case takeAll U m' ls of (es, m'') \<Rightarrow> (external # es, m'')))"

definition mapEntries :: "'v tmap \<Rightarrow> 'v multiset" where
  "mapEntries m = mset (concat (map snd m))"

definition consumedList :: "'v option list \<Rightarrow> 'v list" where
  "consumedList es = concat (map (\<lambda>e. case e of Some v \<Rightarrow> [v] | None \<Rightarrow> []) es)"

definition consumed :: "'v option list \<Rightarrow> 'v multiset" where
  "consumed es = mset (consumedList es)"

text \<open>
  The fallback candidate in the words of the specification: a non-empty bucket whose
  distance from the key does not exceed the tolerance and is minimal among the non-empty
  buckets.
\<close>

definition nearestCandidate :: "'v tmap \<Rightarrow> real \<Rightarrow> real \<Rightarrow> real \<Rightarrow> bool" where
  "nearestCandidate m key tol fk =
     ((\<exists>b. (fk, b) \<in> set m \<and> b \<noteq> []) \<and> \<bar>fk - key\<bar> \<le> tol
      \<and> (\<forall>e\<in>set m. snd e \<noteq> [] \<longrightarrow> \<bar>fk - key\<bar> \<le> \<bar>fst e - key\<bar>))"

text \<open>
  The invariant of the scan: either nothing is chosen yet, or the chosen key lies within
  the tolerance and \<^verbatim>\<open>minDiff\<close> is its distance from the key.
\<close>

definition scanInv :: "real \<Rightarrow> real \<Rightarrow> real option \<times> real option \<Rightarrow> bool" where
  "scanInv key tol st =
     (case st of (None, None) \<Rightarrow> True
      | (Some k, Some d) \<Rightarrow> d = \<bar>k - key\<bar> \<and> d \<le> tol
      | _ \<Rightarrow> False)"

definition mergeTranslations ::
  "utils \<Rightarrow> LyricLine list \<Rightarrow> string option \<Rightarrow> LyricLine list option" where
  "mergeTranslations U ls translationContent =
     (if (case translationContent of None \<Rightarrow> True | Some c \<Rightarrow> c = [] \<or> length (trim c) = 0)
      then Some ls
      else do { translationMap \<leftarrow> buildTranslationMap U translationContent;
                if length translationMap = 0 then Some ls
                else Some (mergeLines U translationMap ls) })"

section \<open>Orchestrator\<close>

definition parseLyrics :: "utils \<Rightarrow> string \<Rightarrow> string option \<Rightarrow> LyricLine list option" where
  "parseLyrics U content translationContent =
     (if content = [] \<or> length (trim content) = 0 then Some []
      else do {
        ls \<leftarrow> (if isNeteaseFormat content then parseNeteaseLyrics U content
               else parseLrc U content);
        merged \<leftarrow> (if (case translationContent of
                         Some c \<Rightarrow> c \<noteq> [] \<and> length (trim c) > 0 | None \<Rightarrow> False)
                   then mergeTranslations U ls translationContent
                   else Some ls);
        Some (processLyricsDurations U merged) })"

section \<open>Notions of the claims\<close>

text \<open>
  A comparator is transitive on a set, and total, when it orders the elements
  consistently: the condition under which every sort gives the same result.
  \<open>groupsOf\<close> are the groups of the forward-scanning window of
  \<^verbatim>\<open>groupAndMergeLines\<close>, \<open>mainEntry\<close> the main entry of a group and
  \<open>otherEntries\<close> the entries of the sorted group at the other positions. \<open>outranks\<close>
  is the priority: a higher tag count, or the same tag count and an original index that is
  not higher. \<open>translationParts\<close> are the display texts of the other non-metadata
  meaningful entries that are non-empty and differ from the main text up to case.
\<close>

definition totalCmp :: "('a \<Rightarrow> 'a \<Rightarrow> real) \<Rightarrow> bool" where
  "totalCmp cmp = (\<forall>a b. cmp a b \<le> 0 \<or> cmp b a \<le> 0)"

definition transOn :: "('a \<Rightarrow> 'a \<Rightarrow> real) \<Rightarrow> 'a set \<Rightarrow> bool" where
  "transOn cmp A = (\<forall>a\<in>A. \<forall>b\<in>A. \<forall>c\<in>A. cmp a b \<le> 0 \<and> cmp b c \<le> 0 \<longrightarrow> cmp a c \<le> 0)"

function groupsOf :: "ParsedLineData list \<Rightarrow> ParsedLineData list list" where
  "groupsOf [] = []"
| "groupsOf (current # rest) =
     (current # takeWhile (withinGroup current) rest)
       # groupsOf (dropWhile (withinGroup current) rest)"
  by pat_completeness auto

termination
proof (relation "measure length")
  fix current :: ParsedLineData and rest :: "ParsedLineData list"
  have "length (dropWhile (withinGroup current) rest) \<le> length rest"
    by (rule length_dropWhile_le)
  then show "(dropWhile (withinGroup current) rest, current # rest) \<in> measure length"
    by simp
qed simp

definition mainEntry :: "utils \<Rightarrow> ParsedLineData list \<Rightarrow> ParsedLineData" where
  "mainEntry U g = sortBy compareGroup g ! mainIndex U (sortBy compareGroup g)"

definition otherEntries :: "utils \<Rightarrow> ParsedLineData list \<Rightarrow> ParsedLineData list" where
  "otherEntries U g = removeAt (mainIndex U (sortBy compareGroup g)) (sortBy compareGroup g)"

definition outranks :: "ParsedLineData \<Rightarrow> ParsedLineData \<Rightarrow> bool" where
  "outranks a b =
     (tagCount b < tagCount a \<or> (tagCount a = tagCount b \<and> originalIndex a \<le> originalIndex b))"

definition mainTextOf :: "utils \<Rightarrow> ParsedLineData \<Rightarrow> string" where
  "mainTextOf U m = orElse (getEntryDisplayText U m) (ptext m)"

text \<open>
  Case in the words of the language standard, by code point: an upper-case letter lies in
  the ranges 65 to 90 or 192 to 222, the code point 215 apart, and its lower-case letter is
  32 above. \<open>caseFold\<close> is the character of a case-insensitive comparison.
\<close>

definition upperCode :: "nat \<Rightarrow> bool" where
  "upperCode n = ((65 \<le> n \<and> n \<le> 90) \<or> (192 \<le> n \<and> n \<le> 222 \<and> n \<noteq> 215))"

definition caseFold :: "char \<Rightarrow> char" where
  "caseFold c = (if upperCode (of_char c) then char_of (of_char c + 32 :: nat) else c)"

definition translationParts :: "utils \<Rightarrow> ParsedLineData list \<Rightarrow> string list" where
  "translationParts U g =
     filter (\<lambda>t. t \<noteq> [] \<and> toLowerCase t \<noteq> toLowerCase (mainTextOf U (mainEntry U g)))
       (map (getEntryDisplayText U)
         (filter (\<lambda>e. \<not> isMetadata e \<and> hasMeaningfulContent U e) (otherEntries U g)))"

text \<open>
  \<open>assignedIndex\<close> is the bucket that accepts an entry in
  \<^verbatim>\<open>mergeYrcWithTranslations\<close>, given the main entries of the buckets: the closest
  bucket when the distance is below 3.0 and the display text of the entry is not empty.
  \<open>nearestIndex\<close> is the first index at minimal distance in time.
\<close>

definition assignedIndex :: "utils \<Rightarrow> ParsedLineData list \<Rightarrow> ParsedLineData \<Rightarrow> nat option" where
  "assignedIndex U mains line =
     (case closestBucket (map (\<lambda>yrc. (yrc, [])) mains) line of
        Some (closestIndex, minDiff) \<Rightarrow>
          if minDiff < 3.0 \<and> getEntryDisplayText U line \<noteq> [] then Some closestIndex else None
      | None \<Rightarrow> None)"

definition nearestIndex :: "ParsedLineData list \<Rightarrow> ParsedLineData \<Rightarrow> nat \<Rightarrow> bool" where
  "nearestIndex mains line i =
     (i < length mains
      \<and> (\<forall>j<length mains. \<bar>ptime (mains ! i) - ptime line\<bar> \<le> \<bar>ptime (mains ! j) - ptime line\<bar>)
      \<and> (\<forall>j<i. \<bar>ptime (mains ! i) - ptime line\<bar> < \<bar>ptime (mains ! j) - ptime line\<bar>))"

text \<open>
  \<open>firstPass\<close> is the first pass of the parser that \<^verbatim>\<open>parseLyrics\<close> dispatches to.
  A line with its \<^verbatim>\<open>_originalIndex\<close> has the key of an entry when it has the time and
  the original index of that entry.

  The core of a line is what the passes after the last sort leave as it is: the time, the
  text, the timing flag, and the texts and start times of the words. \<open>entryCore\<close> is the
  core of the line that an entry of the first pass is emitted as, and \<open>lineKey\<close> and
  \<open>entryKey\<close> pair a core with the original index. The content goes through the
  word-synced merge when it is in the word-synced format and some entry has a tag count of
  1000 or more; the last sort then has the tolerance 0.001, and 0.01 otherwise.
\<close>

definition firstPass :: "utils \<Rightarrow> string \<Rightarrow> ParsedLineData list option" where
  "firstPass U content =
     (if isNeteaseFormat content then parseNeteaseLines U content else parseLrcLines U content)"

definition sameKey :: "LyricLine \<times> nat \<Rightarrow> ParsedLineData \<Rightarrow> bool" where
  "sameKey p e = (time (fst p) = ptime e \<and> snd p = originalIndex e)"

type_synonym core = "real \<times> string \<times> bool \<times> (string \<times> real) list option"

definition wordsCore :: "LyricWord list option \<Rightarrow> (string \<times> real) list option" where
  "wordsCore ws = map_option (map (\<lambda>w. (wtext w, startTime w))) ws"

definition lineCore :: "LyricLine \<Rightarrow> core" where
  "lineCore l = (time l, ltext l, isPreciseTiming l, wordsCore (words l))"

definition wordSynced :: "string \<Rightarrow> ParsedLineData list \<Rightarrow> bool" where
  "wordSynced content parsed =
     (isNeteaseFormat content \<and> list_ex (\<lambda>e. tagCount e \<ge> 1000) parsed)"

definition outputTolerance :: "string \<Rightarrow> ParsedLineData list \<Rightarrow> real" where
  "outputTolerance content parsed = (if wordSynced content parsed then 0.001 else 0.01)"

definition entryCore :: "utils \<Rightarrow> bool \<Rightarrow> ParsedLineData \<Rightarrow> core" where
  "entryCore U ws e =
     (ptime e, mainTextOf U e, ws \<and> tagCount e \<ge> 1000, wordsCore (wordsField e))"

definition lineKey :: "LyricLine \<times> nat \<Rightarrow> core \<times> nat" where
  "lineKey p = (lineCore (fst p), snd p)"

definition entryKey :: "utils \<Rightarrow> bool \<Rightarrow> ParsedLineData \<Rightarrow> core \<times> nat" where
  "entryKey U ws e = (entryCore U ws e, originalIndex e)"

section \<open>Helpers for the concrete examples\<close>

text \<open>
  Modelled from the spec: the helpers of \<^verbatim>\<open>utils.ts\<close> at which the concrete examples
  below are evaluated. The display text is the text rebuilt from the words when there are
  words and they rebuild to non-empty content, otherwise the raw text; an entry has
  meaningful content when its trimmed display text is non-empty; a word of punctuation or
  white space only is merged into the word before it; no line is classified as metadata
  by its text and no line parses as JSON; the time key is the time itself; the default
  duration is 5 seconds.
\<close>

definition displayTextSpec :: "ParsedLineData \<Rightarrow> string" where
  "displayTextSpec e =
     (let rebuilt = concat (map wtext (pwords e))
      in if pwords e \<noteq> [] \<and> trim rebuilt \<noteq> [] then rebuilt else ptext e)"

definition punctuationOnly :: "string \<Rightarrow> bool" where
  "punctuationOnly s = list_all (\<lambda>c. isSpace c \<or> c \<in> set ''.,!?;:'') s"

definition mergePunctuationSpec :: "LyricWord list \<Rightarrow> LyricWord list" where
  "mergePunctuationSpec ws =
     foldl (\<lambda>acc w. if acc \<noteq> [] \<and> punctuationOnly (wtext w)
                    then butlast acc
                           @ [(last acc)\<lparr>wtext := wtext (last acc) @ wtext w, endTime := endTime w\<rparr>]
                    else acc @ [w]) [] ws"

definition exampleUtils :: utils where
  "exampleUtils =
     \<lparr> isMetadataLine = (\<lambda>t. False),
       hasMeaningfulContent = (\<lambda>e. trim (displayTextSpec e) \<noteq> []),
       getEntryDisplayText = displayTextSpec,
       mergePunctuationWords = mergePunctuationSpec,
       normalizeTimeKey = (\<lambda>t. t),
       defaultDuration = 5,
       jsonLine = (\<lambda>s. None) \<rparr>"



definition plainLine :: "real \<Rightarrow> string \<Rightarrow> LyricLine" where
  "plainLine t s =
     \<lparr>time = t, ltext = s, words = None, translation = None, isPreciseTiming = False,
      duration = None\<rparr>"

definition exampleMap :: "string tmap" where
  "exampleMap = [(10, [''a'', ''b'']), (20, [''c''])]"

definition preciseLine :: "real \<Rightarrow> string \<Rightarrow> LyricLine" where
  "preciseLine t s =
     \<lparr>time = t, ltext = s, words = None, translation = None, isPreciseTiming = True,
      duration = None\<rparr>"

definition exampleLines :: "LyricLine list" where
  "exampleLines = [plainLine 10 ''x'', plainLine 10 ''y'', preciseLine 18 ''z'', plainLine 50 ''w'']"

definition longWordEntry :: ParsedLineData where
  "longWordEntry =
     \<lparr>ptime = 0, ptext = ''Hello'',
      pwords = [\<lparr>wtext = ''Hello'', startTime = 0, endTime = 5\<rparr>],
      tagCount = 1001, originalIndex = 0, isMetadata = False\<rparr>"

definition plainEntry :: "real \<Rightarrow> string \<Rightarrow> nat \<Rightarrow> ParsedLineData" where
  "plainEntry t s i =
     \<lparr>ptime = t, ptext = s, pwords = [], tagCount = 0, originalIndex = i, isMetadata = False\<rparr>"

definition exampleEntries :: "ParsedLineData list" where
  "exampleEntries =
     [plainEntry 10 ''Hello'' 0, plainEntry 10.02 ''HELLO'' 1, plainEntry 10.04 ''Bonjour'' 2,
      plainEntry 10.06 ''Hallo'' 3, plainEntry 20 [CHR 0xC9, CHR ''T'', CHR 0xC9] 4,
      plainEntry 20.01 [CHR 0xE9, CHR ''t'', CHR 0xE9] 5]"

definition yrcMain :: ParsedLineData where
  "yrcMain =
     \<lparr>ptime = 12.34, ptext = ''Hello'',
      pwords = [\<lparr>wtext = ''Hello'', startTime = 12.34, endTime = 12.84\<rparr>],
      tagCount = 1001, originalIndex = 0, isMetadata = False\<rparr>"

definition wordEntry :: "real \<Rightarrow> real \<Rightarrow> string \<Rightarrow> nat \<Rightarrow> ParsedLineData" where
  "wordEntry t e s i =
     \<lparr>ptime = t, ptext = s, pwords = [\<lparr>wtext = s, startTime = t, endTime = e\<rparr>],
      tagCount = 1001, originalIndex = i, isMetadata = False\<rparr>"

definition wordLine :: "real \<Rightarrow> real \<Rightarrow> string \<Rightarrow> LyricLine" where
  "wordLine t e s =
     \<lparr>time = t, ltext = s, words = Some [\<lparr>wtext = s, startTime = t, endTime = e\<rparr>],
      translation = None, isPreciseTiming = True, duration = None\<rparr>"

definition closeContent :: string where
  "closeContent = ''[10005,500](10005,500,0)B'' @ [CHR 0x0A] @ ''[10000,500](10000,500,0)A''"

definition unsortedContent :: string where
  "unsortedContent =
     ''[00:10.000]'' @ [CHR 0x0A] @ ''[00:10.099]Q'' @ [CHR 0x0A] @ ''[00:10.101]''
       @ [CHR 0x0A] @ ''[00:10.096]S''"

definition emptyTextContent :: string where
  "emptyTextContent = ''[12340,500](12340,500,0)Hello'' @ [CHR 0x0A] @ ''[00:12.34]''"

section \<open>Properties of the duration post-processor\<close>

lemma processLyricsDurations_length:
  "length (processLyricsDurations U ls) = length ls"
  by (induction U ls rule: processLyricsDurations.induct) simp_all

lemma processLyricsDurations_time:
  "map time (processLyricsDurations U ls) = map time ls"
  by (induction U ls rule: processLyricsDurations.induct) simp_all

lemma processLyricsDurations_hd_time:
  "ls \<noteq> [] \<Longrightarrow> time (hd (processLyricsDurations U ls)) = time (hd ls)"
  by (induction U ls rule: processLyricsDurations.induct) simp_all

lemma processLyricsDurations_twice:
  "processLyricsDurations U (processLyricsDurations U ls) = processLyricsDurations U ls"
proof (induction U ls rule: processLyricsDurations.induct)
  case (1 U)
  show ?case by simp
next
  case (2 U l)
  show ?case by simp
next
  case (3 U l n rest)
  obtain m ms where step: "processLyricsDurations U (n # rest) = m # ms"
    by (cases "processLyricsDurations U (n # rest)")
      (use processLyricsDurations_length [of U "n # rest"] in auto)
  have tm: "time m = time n"
    using processLyricsDurations_hd_time [of "n # rest" U] step by simp
  from 3 step tm show ?case by simp
qed

lemma processLyricsDurations_nth:
  "Suc i < length ls \<Longrightarrow>
     processLyricsDurations U ls ! i = (ls ! i)\<lparr>duration := Some (time (ls ! Suc i) - time (ls ! i))\<rparr>"
proof (induction U ls arbitrary: i rule: processLyricsDurations.induct)
  case (3 U l n rest)
  then show ?case by (cases i) simp_all
qed simp_all

lemma processLyricsDurations_last:
  "ls \<noteq> [] \<Longrightarrow>
     last (processLyricsDurations U ls) = (last ls)\<lparr>duration := Some (defaultDuration U)\<rparr>"
proof (induction U ls rule: processLyricsDurations.induct)
  case (3 U l n rest)
  have "processLyricsDurations U (n # rest) \<noteq> []"
    using processLyricsDurations_length [of U "n # rest"] by auto
  with 3 show ?case by simp
qed simp_all

text \<open>
  C8. The duration post-processor is idempotent: applied to its own output it returns the
  same line sequence, with the same durations. Every line but the last has as duration
  the next line's time minus its own, and the last line has the default.
\<close>

theorem C8_processLyricsDurations_idempotent:
  "processLyricsDurations U (processLyricsDurations U ls) = processLyricsDurations U ls
   \<and> length (processLyricsDurations U ls) = length ls
   \<and> (\<forall>i. Suc i < length ls \<longrightarrow>
         processLyricsDurations U ls ! i
           = (ls ! i)\<lparr>duration := Some (time (ls ! Suc i) - time (ls ! i))\<rparr>)
   \<and> (ls \<noteq> [] \<longrightarrow>
         last (processLyricsDurations U ls) = (last ls)\<lparr>duration := Some (defaultDuration U)\<rparr>)"
  by (simp add: processLyricsDurations_twice processLyricsDurations_length
      processLyricsDurations_nth processLyricsDurations_last)

theorem C8_processLyricsDurations_idempotent_witness:
  "Suc 0 < length [plainLine 10 ''a'', plainLine 12 ''b'']
   \<and> [plainLine 10 ''a'', plainLine 12 ''b''] \<noteq> []
   \<and> processLyricsDurations exampleUtils
        (processLyricsDurations exampleUtils [plainLine 10 ''a'', plainLine 12 ''b''])
       = processLyricsDurations exampleUtils [plainLine 10 ''a'', plainLine 12 ''b'']
   \<and> processLyricsDurations exampleUtils [plainLine 10 ''a'', plainLine 12 ''b''] ! 0
       = (plainLine 10 ''a'')\<lparr>duration := Some 2\<rparr>
   \<and> last (processLyricsDurations exampleUtils [plainLine 10 ''a'', plainLine 12 ''b''])
       = (plainLine 12 ''b'')\<lparr>duration := Some 5\<rparr>"
  using C8_processLyricsDurations_idempotent
    [of exampleUtils "[plainLine 10 ''a'', plainLine 12 ''b'']"]
  by (simp add: plainLine_def exampleUtils_def)

section \<open>Time tags at the call sites\<close>

lemma takeDigits_shape:
  "takeDigits n s = Some (d, rest) \<Longrightarrow> length d = n \<and> list_all isDigit d"
  by (auto simp: takeDigits_def split: if_splits)

lemma fractionThenClose_shape:
  "fractionThenClose n cls s = Some (fr, rest) \<Longrightarrow> length fr = n \<and> list_all isDigit fr"
  by (auto simp: fractionThenClose_def split: Option.bind_splits dest!: takeDigits_shape)

lemma matchTimeTag_shape:
  assumes "matchTimeTag opn cls s = Some (g, rest)"
  shows "timestampGroups g"
  using assms
  by (auto simp: matchTimeTag_def timestampGroups_def
      split: Option.bind_splits option.splits
      dest!: takeDigits_shape fractionThenClose_shape)

lemma digit_not_colon: "isDigit c \<Longrightarrow> c \<noteq> CHR '':'' \<and> c \<noteq> CHR ''.''"
  by (auto simp: isDigit_def)

lemma takeWhile_digits:
  "list_all isDigit m \<Longrightarrow> takeWhile (\<lambda>c. c \<noteq> CHR '':'') (m @ CHR '':'' # r) = m"
  "list_all isDigit m \<Longrightarrow> dropWhile (\<lambda>c. c \<noteq> CHR '':'') (m @ CHR '':'' # r) = CHR '':'' # r"
  "list_all isDigit m \<Longrightarrow> takeWhile (\<lambda>c. c \<noteq> CHR ''.'') (m @ CHR ''.'' # r) = m"
  "list_all isDigit m \<Longrightarrow> dropWhile (\<lambda>c. c \<noteq> CHR ''.'') (m @ CHR ''.'' # r) = CHR ''.'' # r"
  by (induction m) (auto dest: digit_not_colon)

lemma parseTimeTag_numeric:
  assumes "numericGroup m1" "numericGroup m2" "numericGroup m3"
  shows "parseTimeTag (m1 @ '':'' @ m2 @ ''.'' @ m3)
         = Some (real (parseInt m1) * 60 + real (parseInt m2)
                 + real (parseInt m3) / 10 ^ length m3)"
  using assms by (simp add: parseTimeTag_def numericGroup_def takeWhile_digits Let_def)

lemma tagTime_groups:
  assumes "timestampGroups g"
  shows "\<exists>t. tagTime g = Some t"
proof -
  obtain m1 m2 m3 where g: "g = (m1, m2, m3)"
    by (cases g)
  from assms g have "numericGroup m1" "numericGroup m2" "numericGroup m3"
    by (auto simp: timestampGroups_def numericGroup_def)
  from parseTimeTag_numeric [OF this] g show ?thesis
    by (simp add: tagTime_def)
qed

lemma matchAllTimeTags_shape:
  "(g, r) \<in> set (matchAllTimeTags s) \<Longrightarrow> timestampGroups g"
  by (induction s rule: matchAllTimeTags.induct)
    (auto split: option.splits dest: matchTimeTag_shape)

lemma matchAllWordTags_shape:
  "(g, w) \<in> set (matchAllWordTags s) \<Longrightarrow> timestampGroups g"
  by (induction s rule: matchAllWordTags.induct)
    (auto split: option.splits dest: matchTimeTag_shape)

lemma matchLrcLine_shape:
  "matchLrcLine s = Some (g, m4) \<Longrightarrow> timestampGroups g"
  by (auto simp: matchLrcLine_def split: Option.bind_splits dest: matchTimeTag_shape)


lemma those_total: "(\<forall>x\<in>set xs. x \<noteq> None) \<Longrightarrow> \<exists>ys. those xs = Some ys"
  by (induction xs) (auto split: option.splits)

lemma wordsOfMatches_total:
  "(\<forall>m\<in>set ms. timestampGroups (fst m)) \<Longrightarrow> \<exists>ws. wordsOfMatches ms = Some ws"
proof (induction ms)
  case Nil
  show ?case by simp
next
  case (Cons m ms)
  note shape = Cons.prems
  obtain t where t: "tagTime (fst m) = Some t"
    using shape tagTime_groups [of "fst m"] by auto
  obtain ws where ws: "wordsOfMatches ms = Some ws"
    using Cons by auto
  show ?case
  proof (cases ms)
    case Nil
    with t ws show ?thesis by simp
  next
    case ms: (Cons n ns)
    obtain t' where "tagTime (fst n) = Some t'"
      using shape ms tagTime_groups [of "fst n"] by auto
    with t ws ms show ?thesis by simp
  qed
qed

lemma parseWordTags_total: "\<exists>r. parseWordTags U content = Some r"
proof -
  have "\<forall>m\<in>set (matchAllWordTags content). timestampGroups (fst m)"
    using matchAllWordTags_shape by force
  from wordsOfMatches_total [OF this] show ?thesis
    by (auto simp: parseWordTags_def Let_def)
qed

lemma parseLrcLine_total: "\<exists>es. parseLrcLine U line i = Some es"
proof -
  let ?tm = "matchAllTimeTags (trim line)"
  obtain tx ws cnt where pw: "parseWordTags U (trim (snd (last ?tm))) = Some (tx, ws, cnt)"
    using parseWordTags_total [of U "trim (snd (last ?tm))"] by (metis prod_cases3)
  have "\<forall>x\<in>set (map (\<lambda>m. do {
                       t \<leftarrow> tagTime (fst m);
                       Some \<lparr>ptime = t, ptext = tx, pwords = ws, tagCount = cnt,
                             originalIndex = i, isMetadata = isMetadataLine U tx\<rparr> }) ?tm). x \<noteq> None"
  proof
    fix x assume "x \<in> set (map (\<lambda>m. do {
                       t \<leftarrow> tagTime (fst m);
                       Some \<lparr>ptime = t, ptext = tx, pwords = ws, tagCount = cnt,
                             originalIndex = i, isMetadata = isMetadataLine U tx\<rparr> }) ?tm)"
    then obtain m where m: "m \<in> set ?tm" and x: "x = do {
                       t \<leftarrow> tagTime (fst m);
                       Some \<lparr>ptime = t, ptext = tx, pwords = ws, tagCount = cnt,
                             originalIndex = i, isMetadata = isMetadataLine U tx\<rparr> }"
      by auto
    from m have "timestampGroups (fst m)"
      using matchAllTimeTags_shape [of "fst m" "snd m" "trim line"] by simp
    then obtain t where "tagTime (fst m) = Some t"
      using tagTime_groups by blast
    with x show "x \<noteq> None" by simp
  qed
  from those_total [OF this] pw show ?thesis
    by (auto simp: parseLrcLine_def Let_def)
qed

lemma parseLrcLines_total: "\<exists>es. parseLrcLines U content = Some es"
proof -
  have "\<exists>ys. those (map (\<lambda>p. parseLrcLine U (snd p) (fst p)) (enumerate 0 (splitNl content)))
          = Some ys"
    by (rule those_total) (use parseLrcLine_total in auto)
  then show ?thesis by (auto simp: parseLrcLines_def)
qed

lemma parseLrc_total: "\<exists>ls. parseLrc U content = Some ls"
  using parseLrcLines_total [of U content] by (auto simp: parseLrc_def Let_def)

lemma parseFallbackLrcLine_total: "\<exists>r. parseFallbackLrcLine U line i = Some r"
proof (cases "matchLrcLine line")
  case None
  then show ?thesis by (simp add: parseFallbackLrcLine_def)
next
  case (Some a)
  obtain g m4 where a: "a = (g, m4)" by (cases a)
  obtain t where "tagTime g = Some t"
    using matchLrcLine_shape [of line g m4] tagTime_groups Some a by blast
  with Some a show ?thesis by (simp add: parseFallbackLrcLine_def Let_def)
qed

lemma parseNeteaseLine_total: "\<exists>es. parseNeteaseLine U line i = Some es"
  using parseFallbackLrcLine_total [of U "trim line" i]
  by (auto simp: parseNeteaseLine_def Let_def split: option.splits)

lemma parseNeteaseLines_total: "\<exists>es. parseNeteaseLines U content = Some es"
proof -
  have "\<exists>ys. those (map (\<lambda>p. parseNeteaseLine U (snd p) (fst p)) (enumerate 0 (splitNl content)))
          = Some ys"
    by (rule those_total) (use parseNeteaseLine_total in auto)
  then show ?thesis by (auto simp: parseNeteaseLines_def)
qed

lemma parseNeteaseLyrics_total: "\<exists>ls. parseNeteaseLyrics U content = Some ls"
  using parseNeteaseLines_total [of U content] by (auto simp: parseNeteaseLyrics_def)

lemma translationLine_total: "\<exists>m'. translationLine U m rawLine = Some m'"
proof (cases "matchLrcLine (trim rawLine)")
  case None
  then show ?thesis by (auto simp: translationLine_def Let_def split: option.splits)
next
  case (Some a)
  obtain g m4 where a: "a = (g, m4)" by (cases a)
  obtain t where "tagTime g = Some t"
    using matchLrcLine_shape [of "trim rawLine" g m4] tagTime_groups Some a by blast
  with Some a show ?thesis by (auto simp: translationLine_def Let_def split: option.splits)
qed

lemma translationLines_total: "\<exists>m'. translationLines U m ls = Some m'"
proof (induction ls arbitrary: m)
  case Nil
  show ?case by simp
next
  case (Cons l ls)
  obtain m1 where "translationLine U m l = Some m1"
    using translationLine_total by blast
  with Cons [of m1] show ?case by simp
qed

lemma buildTranslationMap_total: "\<exists>m. buildTranslationMap U tc = Some m"
  using translationLines_total by (auto simp: buildTranslationMap_def split: option.splits)

lemma mergeTranslations_total: "\<exists>out. mergeTranslations U ls tc = Some out"
  using buildTranslationMap_total [of U tc] by (auto simp: mergeTranslations_def)

lemma parseLyrics_total: "\<exists>out. parseLyrics U content tc = Some out"
proof -
  obtain ls where ls: "(if isNeteaseFormat content then parseNeteaseLyrics U content
               else parseLrc U content) = Some ls"
    using parseNeteaseLyrics_total [of U content] parseLrc_total [of U content]
    by (cases "isNeteaseFormat content") auto
  obtain merged where "mergeTranslations U ls tc = Some merged"
    using mergeTranslations_total by blast
  with ls show ?thesis by (auto simp: parseLyrics_def)
qed

text \<open>
  C9. \<^verbatim>\<open>parseTimeTag\<close> succeeds on every text built from three groups of the timestamp
  form (two digits, colon, two digits, dot, two to three digits), so it fails only on
  malformed groups. The groups that the line-timestamp parser (line tags and word tags),
  the fallback parser of the word-synced format and the translation-map builder hand to it
  are captured by a regular expression of that form, so none of the three ever reaches the
  failure.
\<close>

theorem C9_parseTimeTag_call_sites:
  "(\<forall>g. timestampGroups g \<longrightarrow> tagTime g \<noteq> None)
   \<and> (\<forall>s g r. (g, r) \<in> set (matchAllTimeTags s) \<longrightarrow> timestampGroups g)
   \<and> (\<forall>s g w. (g, w) \<in> set (matchAllWordTags s) \<longrightarrow> timestampGroups g)
   \<and> (\<forall>s g m4. matchLrcLine s = Some (g, m4) \<longrightarrow> timestampGroups g)
   \<and> (\<forall>U line i. parseLrcLine U line i \<noteq> None)
   \<and> (\<forall>U line i. parseFallbackLrcLine U line i \<noteq> None)
   \<and> (\<forall>U tc. buildTranslationMap U tc \<noteq> None)"
proof -
  have a: "\<forall>g. timestampGroups g \<longrightarrow> tagTime g \<noteq> None"
    using tagTime_groups by fastforce
  have b: "\<forall>s g r. (g, r) \<in> set (matchAllTimeTags s) \<longrightarrow> timestampGroups g"
    using matchAllTimeTags_shape by blast
  have c: "\<forall>s g w. (g, w) \<in> set (matchAllWordTags s) \<longrightarrow> timestampGroups g"
    using matchAllWordTags_shape by blast
  have d: "\<forall>s g m4. matchLrcLine s = Some (g, m4) \<longrightarrow> timestampGroups g"
    using matchLrcLine_shape by blast
  have e: "\<forall>U line i. parseLrcLine U line i \<noteq> None"
    using parseLrcLine_total by fastforce
  have f: "\<forall>U line i. parseFallbackLrcLine U line i \<noteq> None"
    using parseFallbackLrcLine_total by fastforce
  have g: "\<forall>U tc. buildTranslationMap U tc \<noteq> None"
    using buildTranslationMap_total by fastforce
  from a b c d e f g show ?thesis by blast
qed

theorem C9_parseTimeTag_call_sites_witness:
  "timestampGroups (''00'', ''12'', ''34'')
   \<and> tagTime (''00'', ''12'', ''34'') \<noteq> None
   \<and> ((''00'', ''12'', ''34''), ''Hi'') \<in> set (matchAllTimeTags ''[00:12.34]Hi'')
   \<and> ((''00'', ''12'', ''345''), ''Hi'') \<in> set (matchAllWordTags ''<00:12.345>Hi'')
   \<and> timestampGroups (''00'', ''12'', ''345'')
   \<and> matchLrcLine ''[00:12.34]Hi'' = Some ((''00'', ''12'', ''34''), ''Hi'')
   \<and> parseLrcLine exampleUtils ''[00:12.34]Hi'' 0 \<noteq> None"
proof -
  have a: "((''00'', ''12'', ''34''), ''Hi'') \<in> set (matchAllTimeTags ''[00:12.34]Hi'')"
    by code_simp
  have b: "((''00'', ''12'', ''345''), ''Hi'') \<in> set (matchAllWordTags ''<00:12.345>Hi'')"
    by code_simp
  have c: "matchLrcLine ''[00:12.34]Hi'' = Some ((''00'', ''12'', ''34''), ''Hi'')"
    by code_simp
  from C9_parseTimeTag_call_sites a b c show ?thesis
    by blast
qed

section \<open>Translation merger: consumption of the map\<close>

lemma mapGet_mem:
  "distinct (map fst m) \<Longrightarrow> (mapGet m k = Some b) = ((k, b) \<in> set m)"
  by (simp add: mapGet_def)

lemma mapEntries_Cons: "mapEntries (e # m) = mset (snd e) + mapEntries m"
  by (simp add: mapEntries_def)

lemma mapDelete_absent: "k \<notin> fst ` set m \<Longrightarrow> mapDelete m k = m"
  by (induction m) (auto simp: mapDelete_def)

lemma mapShift_absent: "k \<notin> fst ` set m \<Longrightarrow> mapShift m k = m"
  by (induction m) (auto simp: mapShift_def)

lemma mapDelete_Cons:
  "mapDelete (e # m) k = (if fst e = k then mapDelete m k else e # mapDelete m k)"
  by (simp add: mapDelete_def)

lemma mapShift_Cons:
  "mapShift (e # m) k = (if fst e = k then (fst e, tl (snd e)) else e) # mapShift m k"
  by (simp add: mapShift_def)

lemma mapEntries_mapDelete:
  "distinct (map fst m) \<Longrightarrow> (k, [v]) \<in> set m \<Longrightarrow>
     mapEntries (mapDelete m k) + {#v#} = mapEntries m"
proof (induction m)
  case Nil
  then show ?case by simp
next
  case (Cons e m)
  show ?case
  proof (cases "fst e = k")
    case True
    with Cons.prems have e: "e = (k, [v])" and "k \<notin> fst ` set m"
      by (auto simp: rev_image_eqI)
    then show ?thesis
      by (simp add: mapDelete_Cons mapDelete_absent mapEntries_Cons)
  next
    case False
    with Cons show ?thesis
      by (auto simp: mapDelete_Cons mapEntries_Cons)
  qed
qed

lemma mapEntries_mapShift:
  "distinct (map fst m) \<Longrightarrow> (k, v # vs) \<in> set m \<Longrightarrow>
     mapEntries (mapShift m k) + {#v#} = mapEntries m"
proof (induction m)
  case Nil
  then show ?case by simp
next
  case (Cons e m)
  show ?case
  proof (cases "fst e = k")
    case True
    with Cons.prems have e: "e = (k, v # vs)" and "k \<notin> fst ` set m"
      by (auto simp: rev_image_eqI)
    then show ?thesis
      by (simp add: mapShift_Cons mapShift_absent mapEntries_Cons)
  next
    case False
    with Cons show ?thesis
      by (auto simp: mapShift_Cons mapEntries_Cons)
  qed
qed

lemma keys_mapDelete: "map fst (mapDelete m k) = filter (\<lambda>x. x \<noteq> k) (map fst m)"
  by (induction m) (auto simp: mapDelete_def)

lemma keys_mapShift: "map fst (mapShift m k) = map fst m"
  by (induction m) (auto simp: mapShift_def)

lemma popBucket_props:
  assumes d: "distinct (map fst m)" and mem: "(k, v # vs) \<in> set m"
    and p: "popBucket m k (v # vs) = (r, m')"
  shows "r = Some v" "mapEntries m' + {#v#} = mapEntries m" "distinct (map fst m')"
    "(\<forall>b\<in>set m. snd b \<noteq> []) \<Longrightarrow> (\<forall>b\<in>set m'. snd b \<noteq> [])"
proof -
  from p show "r = Some v" by (simp add: popBucket_def)
  show "mapEntries m' + {#v#} = mapEntries m"
  proof (cases "vs = []")
    case True
    with p have "m' = mapDelete m k" by (simp add: popBucket_def)
    with True mem mapEntries_mapDelete [OF d, of k v] show ?thesis by simp
  next
    case False
    with p have "m' = mapShift m k" by (simp add: popBucket_def)
    with mem mapEntries_mapShift [OF d, of k v vs] show ?thesis by simp
  qed
  from p d show "distinct (map fst m')"
    by (auto simp: popBucket_def keys_mapDelete keys_mapShift split: if_splits)
  assume ne: "\<forall>b\<in>set m. snd b \<noteq> []"
  show "\<forall>b\<in>set m'. snd b \<noteq> []"
  proof (cases "vs = []")
    case True
    with p have "m' = mapDelete m k" by (simp add: popBucket_def)
    with ne show ?thesis by (auto simp: mapDelete_def)
  next
    case False
    with p have m': "m' = mapShift m k" by (simp add: popBucket_def)
    show ?thesis
    proof
      fix b assume "b \<in> set m'"
      then have "b \<in> (\<lambda>e. if fst e = k then (fst e, tl (snd e)) else e) ` set m"
        by (simp add: m' mapShift_def)
      then obtain e where e: "e \<in> set m" and b: "b = (if fst e = k then (fst e, tl (snd e)) else e)"
        by blast
      show "snd b \<noteq> []"
      proof (cases "fst e = k")
        case True
        with e d mem have "e = (k, v # vs)"
          by (metis eq_key_imp_eq_value prod.collapse)
        with b True False show ?thesis by simp
      next
        case False
        with b e ne show ?thesis by simp
      qed
    qed
  qed
qed

lemma take_cases:
  assumes d: "distinct (map fst m)"
  shows "takeTranslationForLine U m line = (None, m)
         \<or> (\<exists>k v vs. (k, v # vs) \<in> set m
               \<and> takeTranslationForLine U m line = popBucket m k (v # vs))"
proof -
  let ?key = "normalizeTimeKey U (time line)"
  show ?thesis
  proof (cases "case mapGet m ?key of Some vs \<Rightarrow> length vs > 0 | None \<Rightarrow> False")
    case True
    then obtain v vs where g: "mapGet m ?key = Some (v # vs)"
      by (auto split: option.splits simp: neq_Nil_conv)
    with d have "(?key, v # vs) \<in> set m" by (simp add: mapGet_mem)
    moreover from True g have "takeTranslationForLine U m line = popBucket m ?key (v # vs)"
      by (simp add: takeTranslationForLine_def Let_def)
    ultimately show ?thesis by blast
  next
    case False
    let ?fk = "fst (fold (scanBucket ?key (lineTolerance line)) m (None, None))"
    show ?thesis
    proof (cases ?fk)
      case None
      with False show ?thesis by (simp add: takeTranslationForLine_def Let_def)
    next
      case (Some fk)
      show ?thesis
      proof (cases "mapGet m fk")
        case None
        with False Some show ?thesis by (simp add: takeTranslationForLine_def Let_def)
      next
        case (Some b)
        note g = this
        show ?thesis
        proof (cases b)
          case Nil
          with False \<open>?fk = Some fk\<close> g show ?thesis
            by (simp add: takeTranslationForLine_def Let_def)
        next
          case (Cons v vs)
          with g d have "(fk, v # vs) \<in> set m" by (simp add: mapGet_mem)
          moreover from False \<open>?fk = Some fk\<close> g Cons
          have "takeTranslationForLine U m line = popBucket m fk (v # vs)"
            by (simp add: takeTranslationForLine_def Let_def)
          ultimately show ?thesis by blast
        qed
      qed
    qed
  qed
qed

lemma take_props:
  assumes d: "distinct (map fst m)" and t: "takeTranslationForLine U m line = (r, m')"
  shows "consumed [r] + mapEntries m' = mapEntries m" "distinct (map fst m')"
    "(\<forall>b\<in>set m. snd b \<noteq> []) \<Longrightarrow> (\<forall>b\<in>set m'. snd b \<noteq> [])"
    "\<And>v. r = Some v \<Longrightarrow> v \<in># mapEntries m"
proof -
  from take_cases [OF d, of U line]
  consider "r = None" "m' = m"
    | k w ws where "(k, w # ws) \<in> set m" "popBucket m k (w # ws) = (r, m')"
    using t by auto
  note cases = this
  show "consumed [r] + mapEntries m' = mapEntries m"
  proof (cases rule: cases)
    case 1
    then show ?thesis by (simp add: consumed_def consumedList_def)
  next
    case 2
    from popBucket_props(1,2) [OF d 2] show ?thesis by (simp add: consumed_def consumedList_def)
  qed
  show "distinct (map fst m')"
  proof (cases rule: cases)
    case 1
    with d show ?thesis by simp
  next
    case 2
    from popBucket_props(3) [OF d 2] show ?thesis .
  qed
  show "\<forall>b\<in>set m'. snd b \<noteq> []" if "\<forall>b\<in>set m. snd b \<noteq> []"
  proof (cases rule: cases)
    case 1
    with that show ?thesis by simp
  next
    case 2
    from popBucket_props(4) [OF d 2 that] show ?thesis .
  qed
  show "v \<in># mapEntries m" if "r = Some v" for v
  proof (cases rule: cases)
    case 1
    with that show ?thesis by simp
  next
    case 2
    from popBucket_props(1,2) [OF d 2] that have "mapEntries m' + {#v#} = mapEntries m" by simp
    then have "mapEntries m = add_mset v (mapEntries m')" by simp
    then show ?thesis by simp
  qed
qed

lemma takeAll_props:
  assumes "distinct (map fst m)" "takeAll U m ls = (es, m')"
  shows "consumed es + mapEntries m' = mapEntries m \<and> distinct (map fst m')
         \<and> ((\<forall>b\<in>set m. snd b \<noteq> []) \<longrightarrow> (\<forall>b\<in>set m'. snd b \<noteq> []))
         \<and> length es = length ls"
  using assms
proof (induction ls arbitrary: m es m')
  case Nil
  then show ?case by (simp add: consumed_def consumedList_def)
next
  case (Cons line ls)
  obtain r m1 where t: "takeTranslationForLine U m line = (r, m1)"
    by (cases "takeTranslationForLine U m line")
  obtain es1 m2 where a: "takeAll U m1 ls = (es1, m2)"
    by (cases "takeAll U m1 ls")
  from Cons.prems(2) t a have es: "es = r # es1" and m': "m' = m2" by simp_all
  note tp = take_props [OF Cons.prems(1) t]
  from Cons.IH [OF tp(2) a]
  have ih: "consumed es1 + mapEntries m2 = mapEntries m1" "distinct (map fst m2)"
    "(\<forall>b\<in>set m1. snd b \<noteq> []) \<longrightarrow> (\<forall>b\<in>set m2. snd b \<noteq> [])" "length es1 = length ls"
    by simp_all
  have "consumed (r # es1) = consumed [r] + consumed es1"
    by (simp add: consumed_def consumedList_def)
  with ih(1) tp(1) have "consumed es + mapEntries m' = mapEntries m"
    by (simp add: es m' add.assoc)
  with ih tp(3) show ?case by (auto simp: es m')
qed

lemma mergeLines_takeAll:
  "mergeLines U m ls = map2 attachTranslation ls (fst (takeAll U m ls))"
  by (induction ls arbitrary: m) (auto split: prod.splits)

lemma attachTranslation_eq:
  "attachTranslation l e =
     (case e of Some v \<Rightarrow> if trim v \<noteq> [] then l\<lparr>translation := Some (trim v)\<rparr> else l
      | None \<Rightarrow> l)"
  by (cases e) (auto simp: attachTranslation_def Let_def)


lemma mapGet_None: "(mapGet m k = None) = (k \<notin> fst ` set m)"
  by (simp add: mapGet_def map_of_eq_None_iff)

lemma keys_push:
  "map fst (map (\<lambda>e. if fst e = k then (fst e, snd e @ [v]) else e) m) = map fst m"
  by (induction m) auto

lemma mapPush_inv:
  assumes "distinct (map fst m)" "\<forall>b\<in>set m. snd b \<noteq> []"
  shows "distinct (map fst (mapPush m k v)) \<and> (\<forall>b\<in>set (mapPush m k v). snd b \<noteq> [])"
proof (cases "mapGet m k = None")
  case True
  with assms show ?thesis by (auto simp: mapPush_def mapGet_None)
next
  case False
  then have eq: "mapPush m k v = map (\<lambda>e. if fst e = k then (fst e, snd e @ [v]) else e) m"
    by (simp add: mapPush_def)
  have "distinct (map fst (mapPush m k v))"
    unfolding eq keys_push by (rule assms(1))
  moreover have "\<forall>b\<in>set (mapPush m k v). snd b \<noteq> []"
    unfolding eq using assms(2) by auto
  ultimately show ?thesis by blast
qed

lemma addEntry_inv:
  assumes "distinct (map fst m)" "\<forall>b\<in>set m. snd b \<noteq> []"
  shows "distinct (map fst (addEntry U m t s)) \<and> (\<forall>b\<in>set (addEntry U m t s). snd b \<noteq> [])"
  using assms mapPush_inv [OF assms] by (simp add: addEntry_def Let_def)

lemma translationLine_inv:
  assumes "distinct (map fst m)" "\<forall>b\<in>set m. snd b \<noteq> []" "translationLine U m l = Some m'"
  shows "distinct (map fst m') \<and> (\<forall>b\<in>set m'. snd b \<noteq> [])"
proof -
  have "m' = m \<or> m' \<in> range (\<lambda>p. addEntry U m (fst p) (snd p))"
    using assms(3)
    by (auto simp: translationLine_def Let_def image_iff
        split: if_splits option.splits Option.bind_splits) blast+
  then show ?thesis
  proof
    assume "m' = m"
    with assms(1,2) show ?thesis by simp
  next
    assume "m' \<in> range (\<lambda>p. addEntry U m (fst p) (snd p))"
    then obtain p where "m' = addEntry U m (fst p) (snd p)" by blast
    with addEntry_inv [OF assms(1,2), of U "fst p" "snd p"] show ?thesis by simp
  qed
qed

lemma translationLines_inv:
  assumes "distinct (map fst m)" "\<forall>b\<in>set m. snd b \<noteq> []" "translationLines U m ls = Some m'"
  shows "distinct (map fst m') \<and> (\<forall>b\<in>set m'. snd b \<noteq> [])"
  using assms
proof (induction ls arbitrary: m)
  case Nil
  then show ?case by simp
next
  case (Cons l ls)
  from Cons.prems(3) obtain m1 where s: "translationLine U m l = Some m1"
    and r: "translationLines U m1 ls = Some m'"
    by (auto split: Option.bind_splits)
  from translationLine_inv [OF Cons.prems(1,2) s] Cons.IH [of m1] r show ?case by blast
qed

lemma buildTranslationMap_inv:
  assumes "buildTranslationMap U tc = Some bm"
  shows "distinct (map fst bm) \<and> (\<forall>b\<in>set bm. snd b \<noteq> [])"
proof (cases "\<exists>c. tc = Some c \<and> c \<noteq> []")
  case True
  then obtain c where "tc = Some c" "c \<noteq> []" by blast
  with assms have "translationLines U [] (splitNl c) = Some bm"
    by (simp add: buildTranslationMap_def)
  from translationLines_inv [OF _ _ this] show ?thesis by simp
next
  case False
  with assms have "bm = []"
    by (cases tc) (auto simp: buildTranslationMap_def split: if_splits)
  then show ?thesis by simp
qed

lemma consumed_mem:
  "Some v \<in> set es \<Longrightarrow> v \<in># consumed es"
  by (induction es) (auto simp: consumed_def consumedList_def split: option.splits)

lemma consumed_subset:
  assumes "distinct (map fst m)" "takeAll U m ls = (es, m')"
  shows "consumed es \<subseteq># mapEntries m"
proof -
  from takeAll_props [OF assms] have "consumed es + mapEntries m' = mapEntries m" by simp
  moreover have "consumed es \<subseteq># consumed es + mapEntries m'" by simp
  ultimately show ?thesis by simp
qed

lemma consumed_distinct:
  assumes "distinct (map fst m)" "takeAll U m ls = (es, m')" "distinct (concat (map snd m))"
  shows "distinct (consumedList es)"
proof -
  have sub: "mset (consumedList es) \<subseteq># mset (concat (map snd m))"
    using consumed_subset [OF assms(1,2)] by (simp add: consumed_def mapEntries_def)
  have "count (mset (consumedList es)) a = (if a \<in> set (consumedList es) then 1 else 0)" for a
  proof -
    have "count (mset (consumedList es)) a \<le> count (mset (concat (map snd m))) a"
      using sub by (rule mset_subset_eq_count)
    also have "\<dots> \<le> 1"
      using assms(3) by (simp add: distinct_count_atmost_1)
    finally have le: "count (mset (consumedList es)) a \<le> 1" .
    show ?thesis
    proof (cases "a \<in> set (consumedList es)")
      case True
      then have nz: "count (mset (consumedList es)) a \<noteq> 0" by simp
      from le nz have "count (mset (consumedList es)) a = 1" by linarith
      with True show ?thesis by (simp only: if_True)
    next
      case False
      then show ?thesis by simp
    qed
  qed
  then show ?thesis by (simp add: distinct_count_atmost_1)
qed


lemma scanBucket_inv:
  "scanInv key tol st \<Longrightarrow> scanInv key tol (scanBucket key tol e st)"
  by (auto simp: scanInv_def scanBucket_def Let_def split: option.splits prod.splits)

lemma scan_fold_inv:
  "scanInv key tol st \<Longrightarrow> scanInv key tol (fold (scanBucket key tol) m st)"
  by (induction m arbitrary: st) (simp_all add: scanBucket_inv)

lemma scan_fold_None:
  "scanInv key tol st \<Longrightarrow> fst (fold (scanBucket key tol) m st) = None \<Longrightarrow>
     fst st = None \<and> (\<forall>e\<in>set m. snd e \<noteq> [] \<longrightarrow> tol < \<bar>fst e - key\<bar>)"
proof (induction m arbitrary: st)
  case Nil
  then show ?case by simp
next
  case (Cons e m)
  from Cons.IH [OF scanBucket_inv [OF Cons.prems(1)], of e] Cons.prems(2)
  have ih: "fst (scanBucket key tol e st) = None"
    "\<forall>e\<in>set m. snd e \<noteq> [] \<longrightarrow> tol < \<bar>fst e - key\<bar>"
    by simp_all
  from ih(1) Cons.prems(1) have "fst st = None \<and> (snd e \<noteq> [] \<longrightarrow> tol < \<bar>fst e - key\<bar>)"
    by (auto simp: scanInv_def scanBucket_def Let_def split: option.splits prod.splits if_splits)
  with ih(2) show ?case by simp
qed

lemma scan_fold_Some:
  "scanInv key tol st \<Longrightarrow> fst (fold (scanBucket key tol) m st) = Some k \<Longrightarrow>
     \<bar>k - key\<bar> \<le> tol
     \<and> (fst st = Some k \<or> (\<exists>b. (k, b) \<in> set m \<and> b \<noteq> []))
     \<and> (\<forall>e\<in>set m. snd e \<noteq> [] \<longrightarrow> \<bar>k - key\<bar> \<le> \<bar>fst e - key\<bar>)
     \<and> (\<forall>k0. fst st = Some k0 \<longrightarrow> \<bar>k - key\<bar> \<le> \<bar>k0 - key\<bar>)"
proof (induction m arbitrary: st)
  case Nil
  then show ?case by (auto simp: scanInv_def split: option.splits prod.splits)
next
  case (Cons e m)
  let ?st1 = "scanBucket key tol e st"
  from Cons.IH [OF scanBucket_inv [OF Cons.prems(1)], of e] Cons.prems(2)
  have ih: "\<bar>k - key\<bar> \<le> tol"
    "fst ?st1 = Some k \<or> (\<exists>b. (k, b) \<in> set m \<and> b \<noteq> [])"
    "\<forall>e\<in>set m. snd e \<noteq> [] \<longrightarrow> \<bar>k - key\<bar> \<le> \<bar>fst e - key\<bar>"
    "\<forall>k0. fst ?st1 = Some k0 \<longrightarrow> \<bar>k - key\<bar> \<le> \<bar>k0 - key\<bar>"
    by simp_all
  have step: "(fst ?st1 = fst st \<and> (snd e \<noteq> [] \<longrightarrow> (\<forall>k0. fst st = Some k0 \<longrightarrow> \<bar>k0 - key\<bar> \<le> \<bar>fst e - key\<bar>) \<and> (fst st = None \<longrightarrow> tol < \<bar>fst e - key\<bar>)))
      \<or> (fst ?st1 = Some (fst e) \<and> snd e \<noteq> [] \<and> (\<forall>k0. fst st = Some k0 \<longrightarrow> \<bar>fst e - key\<bar> \<le> \<bar>k0 - key\<bar>))"
    using Cons.prems(1)
    by (auto simp: scanInv_def scanBucket_def Let_def split: option.splits prod.splits if_splits)
  have a: "fst st = Some k \<or> (\<exists>b. (k, b) \<in> set (e # m) \<and> b \<noteq> [])"
    using ih(2) step by (cases e) auto
  have b: "\<forall>x\<in>set (e # m). snd x \<noteq> [] \<longrightarrow> \<bar>k - key\<bar> \<le> \<bar>fst x - key\<bar>"
  proof
    fix x assume x: "x \<in> set (e # m)"
    show "snd x \<noteq> [] \<longrightarrow> \<bar>k - key\<bar> \<le> \<bar>fst x - key\<bar>"
    proof (cases "x = e")
      case True
      from step show ?thesis
      proof
        assume s: "fst ?st1 = fst st \<and> (snd e \<noteq> [] \<longrightarrow> (\<forall>k0. fst st = Some k0 \<longrightarrow> \<bar>k0 - key\<bar> \<le> \<bar>fst e - key\<bar>) \<and> (fst st = None \<longrightarrow> tol < \<bar>fst e - key\<bar>))"
        show ?thesis
        proof (cases "fst st")
          case None
          with s ih(1) True show ?thesis by auto
        next
          case (Some k0)
          with s ih(4) True show ?thesis by force
        qed
      next
        assume "fst ?st1 = Some (fst e) \<and> snd e \<noteq> [] \<and> (\<forall>k0. fst st = Some k0 \<longrightarrow> \<bar>fst e - key\<bar> \<le> \<bar>k0 - key\<bar>)"
        with ih(4) True show ?thesis by simp
      qed
    next
      case False
      with x ih(3) show ?thesis by simp
    qed
  qed
  have c: "\<forall>k0. fst st = Some k0 \<longrightarrow> \<bar>k - key\<bar> \<le> \<bar>k0 - key\<bar>"
    using step ih(4) by force
  from ih(1) a b c show ?case by blast
qed


lemma scanInv_init: "scanInv key tol (None, None)"
  by (simp add: scanInv_def)

lemma take_exact:
  assumes "mapGet m (normalizeTimeKey U (time line)) = Some (v # vs)"
  shows "takeTranslationForLine U m line = popBucket m (normalizeTimeKey U (time line)) (v # vs)"
  using assms by (simp add: takeTranslationForLine_def Let_def)

lemma take_fallback:
  fixes m :: "'v tmap"
  assumes d: "distinct (map fst m)"
    and ne: "\<forall>v vs. mapGet m (normalizeTimeKey U (time line)) \<noteq> Some (v # vs)"
    and c: "\<exists>e\<in>set m. snd e \<noteq> [] \<and> \<bar>fst e - normalizeTimeKey U (time line)\<bar> \<le> lineTolerance line"
  shows "\<exists>fk v vs. nearestCandidate m (normalizeTimeKey U (time line)) (lineTolerance line) fk
            \<and> mapGet m fk = Some (v # vs)
            \<and> takeTranslationForLine U m line = popBucket m fk (v # vs)"
proof -
  let ?key = "normalizeTimeKey U (time line)"
  let ?tol = "lineTolerance line"
  let ?fk = "fst (fold (scanBucket ?key ?tol) m (None, None))"
  have nd: "\<not> (case mapGet m ?key of Some vs \<Rightarrow> length vs > 0 | None \<Rightarrow> False)"
    using ne by (auto split: option.splits simp: neq_Nil_conv)
  have "?fk \<noteq> None"
  proof
    assume "?fk = None"
    from scan_fold_None [OF scanInv_init this] c show False by force
  qed
  then obtain fk where fk: "?fk = Some fk" by blast
  from scan_fold_Some [OF scanInv_init fk]
  have p: "\<bar>fk - ?key\<bar> \<le> ?tol" "\<exists>b. (fk, b) \<in> set m \<and> b \<noteq> []"
    "\<forall>e\<in>set m. snd e \<noteq> [] \<longrightarrow> \<bar>fk - ?key\<bar> \<le> \<bar>fst e - ?key\<bar>"
    by simp_all
  from p(2) obtain v vs where mem: "(fk, v # vs) \<in> set m"
    by (auto simp: neq_Nil_conv)
  with d have g: "mapGet m fk = Some (v # vs)" by (simp add: mapGet_mem)
  have "takeTranslationForLine U m line = popBucket m fk (v # vs)"
    using nd fk g by (simp add: takeTranslationForLine_def Let_def)
  moreover have "nearestCandidate m ?key ?tol fk"
    using p by (simp add: nearestCandidate_def)
  ultimately show ?thesis using g by blast
qed

lemma take_none:
  fixes m :: "'v tmap"
  assumes ne: "\<forall>v vs. mapGet m (normalizeTimeKey U (time line)) \<noteq> Some (v # vs)"
    and c: "\<not> (\<exists>e\<in>set m. snd e \<noteq> [] \<and> \<bar>fst e - normalizeTimeKey U (time line)\<bar> \<le> lineTolerance line)"
  shows "takeTranslationForLine U m line = (None, m)"
proof -
  let ?key = "normalizeTimeKey U (time line)"
  let ?tol = "lineTolerance line"
  let ?fk = "fst (fold (scanBucket ?key ?tol) m (None, None))"
  have nd: "\<not> (case mapGet m ?key of Some vs \<Rightarrow> length vs > 0 | None \<Rightarrow> False)"
    using ne by (auto split: option.splits simp: neq_Nil_conv)
  have "?fk = None"
  proof (rule ccontr)
    assume "?fk \<noteq> None"
    then obtain fk where fk: "?fk = Some fk" by blast
    from scan_fold_Some [OF scanInv_init fk] c show False by force
  qed
  with nd show ?thesis by (simp add: takeTranslationForLine_def Let_def)
qed

text \<open>
  The cases of \<^verbatim>\<open>takeTranslationForLine\<close>, with the key of the line's time: when the
  bucket under that key is non-empty, its first value is popped. Otherwise, when the key
  of some non-empty bucket lies within the tolerance of the line (3.0 for a line with
  precise timing, 0.25 otherwise) from the key of the line, the first value of a non-empty
  bucket is popped whose key is within the tolerance and nearest to the key of the line;
  when none does, nothing is returned, the map is left as it is, and
  \<^verbatim>\<open>mergeTranslations\<close> returns the line itself. A pop returns the first value and
  deletes the bucket that it empties.
\<close>

lemma takeTranslationForLine_cases:
  fixes m :: "string tmap"
  assumes "distinct (map fst m)"
  shows "(\<forall>v vs. mapGet m (normalizeTimeKey U (time line)) = Some (v # vs) \<longrightarrow>
            takeTranslationForLine U m line
              = popBucket m (normalizeTimeKey U (time line)) (v # vs))
       \<and> ((\<forall>v vs. mapGet m (normalizeTimeKey U (time line)) \<noteq> Some (v # vs)) \<longrightarrow>
            (if \<exists>e\<in>set m. snd e \<noteq> []
                  \<and> \<bar>fst e - normalizeTimeKey U (time line)\<bar> \<le> lineTolerance line
             then \<exists>fk v vs.
                    nearestCandidate m (normalizeTimeKey U (time line)) (lineTolerance line) fk
                    \<and> mapGet m fk = Some (v # vs)
                    \<and> takeTranslationForLine U m line = popBucket m fk (v # vs)
             else takeTranslationForLine U m line = (None, m)
                  \<and> mergeLines U m (line # ls) = line # mergeLines U m ls))
       \<and> (\<forall>k v vs. popBucket m k (v # vs)
             = (Some v, if vs = [] then mapDelete m k else mapShift m k))
       \<and> lineTolerance line = (if isPreciseTiming line then 3.0 else 0.25)"
proof -
  have a: "\<forall>v vs. mapGet m (normalizeTimeKey U (time line)) = Some (v # vs) \<longrightarrow>
            takeTranslationForLine U m line
              = popBucket m (normalizeTimeKey U (time line)) (v # vs)"
    by (intro allI impI take_exact)
  have b: "(if \<exists>e\<in>set m. snd e \<noteq> []
                  \<and> \<bar>fst e - normalizeTimeKey U (time line)\<bar> \<le> lineTolerance line
             then \<exists>fk v vs.
                    nearestCandidate m (normalizeTimeKey U (time line)) (lineTolerance line) fk
                    \<and> mapGet m fk = Some (v # vs)
                    \<and> takeTranslationForLine U m line = popBucket m fk (v # vs)
             else takeTranslationForLine U m line = (None, m)
                  \<and> mergeLines U m (line # ls) = line # mergeLines U m ls)"
    if ne: "\<forall>v vs. mapGet m (normalizeTimeKey U (time line)) \<noteq> Some (v # vs)"
  proof (cases "\<exists>e\<in>set m. snd e \<noteq> []
                  \<and> \<bar>fst e - normalizeTimeKey U (time line)\<bar> \<le> lineTolerance line")
    case True
    show ?thesis
      unfolding if_P [OF True] by (rule take_fallback [OF assms ne True])
  next
    case False
    from take_none [OF ne False] have t: "takeTranslationForLine U m line = (None, m)" .
    then have ml: "mergeLines U m (line # ls) = line # mergeLines U m ls"
      by (simp add: attachTranslation_def)
    show ?thesis
      unfolding if_not_P [OF False] using t ml by (rule conjI)
  qed
  have c: "\<forall>k v vs. popBucket m k (v # vs)
             = (Some v, if vs = [] then mapDelete m k else mapShift m k)"
    by (simp add: popBucket_def)
  have e: "lineTolerance line = (if isPreciseTiming line then 3.0 else 0.25)"
    by (simp add: lineTolerance_def)
  from a b c e show ?thesis by blast
qed


lemma takeTranslationForLine_cases_example:
  "distinct (map fst exampleMap)
   \<and> mapGet exampleMap (normalizeTimeKey exampleUtils (time (plainLine 10 ''x''))) = Some (''a'' # [''b''])
   \<and> takeTranslationForLine exampleUtils exampleMap (plainLine 10 ''x'')
       = (Some ''a'', [(10, [''b'']), (20, [''c''])])
   \<and> (\<forall>v vs. mapGet exampleMap (normalizeTimeKey exampleUtils (time (preciseLine 18 ''y''))) \<noteq> Some (v # vs))
   \<and> (\<exists>e\<in>set exampleMap. snd e \<noteq> []
         \<and> \<bar>fst e - normalizeTimeKey exampleUtils (time (preciseLine 18 ''y''))\<bar>
             \<le> lineTolerance (preciseLine 18 ''y''))
   \<and> takeTranslationForLine exampleUtils exampleMap (preciseLine 18 ''y'')
       = (Some ''c'', [(10, [''a'', ''b''])])
   \<and> \<not> (\<exists>e\<in>set exampleMap. snd e \<noteq> []
         \<and> \<bar>fst e - normalizeTimeKey exampleUtils (time (plainLine 18 ''z''))\<bar>
             \<le> lineTolerance (plainLine 18 ''z''))
   \<and> mergeLines exampleUtils exampleMap [plainLine 18 ''z''] = [plainLine 18 ''z'']"
proof -
  have d: "distinct (map fst exampleMap)"
    by (simp add: exampleMap_def)
  have g1: "mapGet exampleMap (normalizeTimeKey exampleUtils (time (plainLine 10 ''x''))) = Some (''a'' # [''b''])"
    by (simp add: exampleMap_def mapGet_def exampleUtils_def plainLine_def)
  have p1: "popBucket exampleMap (normalizeTimeKey exampleUtils (time (plainLine 10 ''x''))) (''a'' # [''b''])
            = (Some ''a'', [(10, [''b'']), (20, [''c''])])"
    by (simp add: popBucket_def exampleMap_def mapShift_def exampleUtils_def plainLine_def)
  have g2: "\<forall>v vs. mapGet exampleMap (normalizeTimeKey exampleUtils (time (preciseLine 18 ''y''))) \<noteq> Some (v # vs)"
    by (simp add: exampleMap_def mapGet_def exampleUtils_def preciseLine_def)
  have c2: "\<exists>e\<in>set exampleMap. snd e \<noteq> []
         \<and> \<bar>fst e - normalizeTimeKey exampleUtils (time (preciseLine 18 ''y''))\<bar>
             \<le> lineTolerance (preciseLine 18 ''y'')"
    by (simp add: exampleMap_def exampleUtils_def preciseLine_def lineTolerance_def)
  have t2: "takeTranslationForLine exampleUtils exampleMap (preciseLine 18 ''y'')
       = (Some ''c'', [(10, [''a'', ''b''])])"
    by code_simp
  have g3: "\<forall>v vs. mapGet exampleMap (normalizeTimeKey exampleUtils (time (plainLine 18 ''z''))) \<noteq> Some (v # vs)"
    by (simp add: exampleMap_def mapGet_def exampleUtils_def plainLine_def)
  have c3: "\<not> (\<exists>e\<in>set exampleMap. snd e \<noteq> []
         \<and> \<bar>fst e - normalizeTimeKey exampleUtils (time (plainLine 18 ''z''))\<bar>
             \<le> lineTolerance (plainLine 18 ''z''))"
    by (simp add: exampleMap_def exampleUtils_def plainLine_def lineTolerance_def)
  note th1 = takeTranslationForLine_cases [OF d, of exampleUtils "plainLine 10 ''x''" "[]"]
  note th3 = takeTranslationForLine_cases [OF d, of exampleUtils "plainLine 18 ''z''" "[]"]
  from th1 g1 p1 have r1: "takeTranslationForLine exampleUtils exampleMap (plainLine 10 ''x'')
       = (Some ''a'', [(10, [''b'']), (20, [''c''])])"
    by simp
  from th3 g3 c3 have r3: "mergeLines exampleUtils exampleMap [plainLine 18 ''z''] = [plainLine 18 ''z'']"
    by (simp del: mergeLines.simps(2))
  from d g1 r1 g2 c2 t2 c3 r3 show ?thesis by blast
qed

text \<open>
  C5. Across the calls of \<^verbatim>\<open>takeTranslationForLine\<close> made for the lines, the values
  returned and the entries left in the map together are exactly the entries of the map
  at the start: a returned entry has left the map, which keeps distinct keys and no empty
  bucket. With entries that are pairwise different, no entry is returned twice. The lines
  of \<^verbatim>\<open>mergeTranslations\<close> are the input lines with these values attached, and the map
  that \<^verbatim>\<open>buildTranslationMap\<close> builds has distinct keys and no empty bucket.
\<close>

theorem C5_translation_entries_consumed_once:
  fixes m :: "'v tmap" and sm :: "string tmap"
  assumes "distinct (map fst m)" and "takeAll U m ls = (es, m')"
  shows "consumed es + mapEntries m' = mapEntries m
       \<and> distinct (map fst m')
       \<and> ((\<forall>b\<in>set m. snd b \<noteq> []) \<longrightarrow> (\<forall>b\<in>set m'. snd b \<noteq> []))
       \<and> (distinct (concat (map snd m)) \<longrightarrow> distinct (consumedList es))
       \<and> mergeLines U sm ls = map2 attachTranslation ls (fst (takeAll U sm ls))
       \<and> (\<forall>tc bm. buildTranslationMap U tc = Some bm \<longrightarrow>
             distinct (map fst bm) \<and> (\<forall>b\<in>set bm. snd b \<noteq> []))"
proof -
  note p = takeAll_props [OF assms]
  have a: "distinct (concat (map snd m)) \<longrightarrow> distinct (consumedList es)"
    using consumed_distinct [OF assms] by blast
  have b: "\<forall>tc bm. buildTranslationMap U tc = Some bm \<longrightarrow>
             distinct (map fst bm) \<and> (\<forall>b\<in>set bm. snd b \<noteq> [])"
    using buildTranslationMap_inv by blast
  from p a b mergeLines_takeAll [of U sm ls] show ?thesis by blast
qed

theorem C5_translation_entries_consumed_once_witness:
  "distinct (map fst exampleMap)
   \<and> takeAll exampleUtils exampleMap exampleLines = ([Some ''a'', Some ''b'', Some ''c'', None], [])
   \<and> distinct (concat (map snd exampleMap))
   \<and> consumed [Some ''a'', Some ''b'', Some ''c'', None] + mapEntries [] = mapEntries exampleMap
   \<and> distinct (consumedList [Some ''a'', Some ''b'', Some ''c'', None])
   \<and> buildTranslationMap exampleUtils (Some ''[00:10.00]a'') = Some [(10, [''a''])]
   \<and> distinct (map fst [(10 :: real, [''a''])])"
proof -
  have d: "distinct (map fst exampleMap)"
    by (simp add: exampleMap_def)
  have t: "takeAll exampleUtils exampleMap exampleLines = ([Some ''a'', Some ''b'', Some ''c'', None], [])"
    by code_simp
  have n: "\<forall>b\<in>set exampleMap. snd b \<noteq> []"
    by (simp add: exampleMap_def)
  have v: "distinct (concat (map snd exampleMap))"
    by (simp add: exampleMap_def)
  have bm: "buildTranslationMap exampleUtils (Some ''[00:10.00]a'') = Some [(10, [''a''])]"
    by code_simp
  from C5_translation_entries_consumed_once [OF d t, of "[]"] n v bm d t show ?thesis
    by blast
qed

section \<open>Translation merger: what the lines keep\<close>

lemma consumed_nth:
  "i < length es \<Longrightarrow> es ! i = Some v \<Longrightarrow> v \<in># consumed es"
  using consumed_mem [of v es] nth_mem [of i es] by simp

lemma mergeLines_frame:
  assumes d: "distinct (map fst m)" and i: "i < length ls"
  shows "mergeLines U m ls ! i = ls ! i
         \<or> (\<exists>v. v \<in># mapEntries m \<and> trim v \<noteq> []
               \<and> mergeLines U m ls ! i = (ls ! i)\<lparr>translation := Some (trim v)\<rparr>)"
proof -
  obtain es m' where t: "takeAll U m ls = (es, m')"
    by (cases "takeAll U m ls")
  from takeAll_props [OF d t] have len: "length es = length ls" by simp
  have out: "mergeLines U m ls ! i = attachTranslation (ls ! i) (es ! i)"
    using i len t by (simp add: mergeLines_takeAll)
  show ?thesis
  proof (cases "es ! i")
    case None
    with out show ?thesis by (simp add: attachTranslation_eq)
  next
    case (Some v)
    from consumed_nth [of i es v] i len Some have "v \<in># consumed es" by simp
    with consumed_subset [OF d t] have v: "v \<in># mapEntries m"
      by (meson mset_subset_eqD)
    show ?thesis
    proof (cases "trim v = []")
      case True
      with out Some show ?thesis by (simp add: attachTranslation_eq)
    next
      case False
      with out Some v show ?thesis by (auto simp: attachTranslation_eq)
    qed
  qed
qed

lemma mergeLines_length: "length (mergeLines U m ls) = length ls"
  by (induction ls arbitrary: m) (auto split: prod.splits)

text \<open>
  C10. \<^verbatim>\<open>mergeTranslations\<close> returns, for every line list and translation text, a list
  of the same length in which each line is the input line at that position, either
  unchanged or with its translation replaced by the trimmed, non-empty text of an entry of
  the translation map: time, text, words, precision flag and duration are those of the
  input line.
\<close>

theorem C10_mergeTranslations_frame:
  "\<exists>out. mergeTranslations U ls tc = Some out \<and> length out = length ls
     \<and> (\<forall>i<length ls.
          time (out ! i) = time (ls ! i) \<and> ltext (out ! i) = ltext (ls ! i)
          \<and> words (out ! i) = words (ls ! i)
          \<and> isPreciseTiming (out ! i) = isPreciseTiming (ls ! i)
          \<and> duration (out ! i) = duration (ls ! i)
          \<and> (out ! i = ls ! i
             \<or> (\<exists>bm v. buildTranslationMap U tc = Some bm \<and> v \<in># mapEntries bm
                   \<and> trim v \<noteq> []
                   \<and> out ! i = (ls ! i)\<lparr>translation := Some (trim v)\<rparr>)))"
proof -
  obtain bm where bm: "buildTranslationMap U tc = Some bm"
    using buildTranslationMap_total by blast
  from buildTranslationMap_inv [OF bm] have d: "distinct (map fst bm)" by simp
  have "mergeTranslations U ls tc = Some ls \<or> mergeTranslations U ls tc = Some (mergeLines U bm ls)"
    using bm by (simp add: mergeTranslations_def)
  then show ?thesis
  proof
    assume "mergeTranslations U ls tc = Some ls"
    then show ?thesis by simp
  next
    assume m: "mergeTranslations U ls tc = Some (mergeLines U bm ls)"
    have "time (mergeLines U bm ls ! i) = time (ls ! i) \<and> ltext (mergeLines U bm ls ! i) = ltext (ls ! i)
          \<and> words (mergeLines U bm ls ! i) = words (ls ! i)
          \<and> isPreciseTiming (mergeLines U bm ls ! i) = isPreciseTiming (ls ! i)
          \<and> duration (mergeLines U bm ls ! i) = duration (ls ! i)
          \<and> (mergeLines U bm ls ! i = ls ! i
             \<or> (\<exists>bm' v. buildTranslationMap U tc = Some bm' \<and> v \<in># mapEntries bm'
                   \<and> trim v \<noteq> []
                   \<and> mergeLines U bm ls ! i = (ls ! i)\<lparr>translation := Some (trim v)\<rparr>))"
      if i: "i < length ls" for i
    proof -
      from mergeLines_frame [OF d i, of U]
      consider "mergeLines U bm ls ! i = ls ! i"
        | v where "v \<in># mapEntries bm" "trim v \<noteq> []"
            "mergeLines U bm ls ! i = (ls ! i)\<lparr>translation := Some (trim v)\<rparr>"
        by blast
      then show ?thesis
      proof cases
        case 1
        then show ?thesis by simp
      next
        case 2
        with bm show ?thesis by auto
      qed
    qed
    with m mergeLines_length [of U bm ls] show ?thesis by simp
  qed
qed

theorem C10_mergeTranslations_frame_witness:
  "(0 :: nat) < length [plainLine 10 ''Hello'']
   \<and> mergeTranslations exampleUtils [plainLine 10 ''Hello''] (Some ''[00:10.00] Bonjour '')
       = Some [(plainLine 10 ''Hello'')\<lparr>translation := Some ''Bonjour''\<rparr>]
   \<and> time ((plainLine 10 ''Hello'')\<lparr>translation := Some ''Bonjour''\<rparr>)
       = time ([plainLine 10 ''Hello''] ! 0)"
proof -
  have e: "mergeTranslations exampleUtils [plainLine 10 ''Hello''] (Some ''[00:10.00] Bonjour '')
       = Some [(plainLine 10 ''Hello'')\<lparr>translation := Some ''Bonjour''\<rparr>]"
    by code_simp
  from C10_mergeTranslations_frame [of exampleUtils "[plainLine 10 ''Hello'']" "Some ''[00:10.00] Bonjour ''"]
  obtain out where "mergeTranslations exampleUtils [plainLine 10 ''Hello''] (Some ''[00:10.00] Bonjour '') = Some out"
    and "\<forall>i<length [plainLine 10 ''Hello'']. time (out ! i) = time ([plainLine 10 ''Hello''] ! i)"
    by blast
  with e show ?thesis by auto
qed

section \<open>External translations and word durations on concrete inputs\<close>

text \<open>
  C1. On the content \<^verbatim>\<open>[00:10.00]Hello\<close> with the translation content
  \<^verbatim>\<open>[00:10.00]hello\<close>, \<^verbatim>\<open>parseLyrics\<close> returns one line whose translation is
  \<^verbatim>\<open>hello\<close> and whose text is \<^verbatim>\<open>Hello\<close>: the two are equal up to case.
  \<^verbatim>\<open>mergeTranslations\<close> attaches the external translation without the comparison with
  the text that \<^verbatim>\<open>groupAndMergeLines\<close> and \<^verbatim>\<open>mergeYrcWithTranslations\<close> make.
\<close>

theorem C1_external_translation_equals_text:
  "parseLyrics exampleUtils ''[00:10.00]Hello'' (Some ''[00:10.00]hello'')
     = Some [\<lparr>time = 10, ltext = ''Hello'', words = None, translation = Some ''hello'',
              isPreciseTiming = False, duration = Some 5\<rparr>]
   \<and> toLowerCase ''hello'' = toLowerCase ''Hello''"
  by code_simp

lemma yrcExample_line:
  "matchYrcLine ''[0,10000](0,5000,0)Hello'' = Some (''0'', ''10000'', ''(0,5000,0)Hello'')"
  by code_simp

lemma yrcExample_words:
  "matchAllYrcWords ''(0,5000,0)Hello'' = [((''0'', ''5000'', ''0''), ''Hello'')]"
  by code_simp

lemma yrcExample_ints: "parseInt ''5000'' = 5000" "parseInt ''0'' = 0"
  by (simp_all add: parseInt_def digitVal_def)

lemma yrcExample_trim:
  "trim ''[0,10000](0,5000,0)Hello'' = ''[0,10000](0,5000,0)Hello''"
  by code_simp

lemma yrcExample_split:
  "splitNl ''[0,10000](0,5000,0)Hello'' = [''[0,10000](0,5000,0)Hello'']"
  by code_simp

lemma yrcExample_entry:
  "parseYrcLine exampleUtils ''[0,10000](0,5000,0)Hello'' 0 = Some longWordEntry"
  by (simp add: parseYrcLine_def yrcExample_line yrcExample_words yrcExample_ints yrcWord_def
      createWord_def exampleUtils_def mergePunctuationSpec_def punctuationOnly_def
      longWordEntry_def Let_def
      del: matchAllYrcWords.simps)

lemma yrcExample_parsed:
  "parseNeteaseLines exampleUtils ''[0,10000](0,5000,0)Hello'' = Some [longWordEntry]"
  by (simp add: parseNeteaseLines_def parseNeteaseLine_def yrcExample_split yrcExample_trim
      yrcExample_entry startsWith_def enumerate_eq_zip)

lemma yrcExample_lines:
  "neteaseFromEntries exampleUtils [longWordEntry]
     = [\<lparr>time = 0, ltext = ''Hello'',
          words = Some [\<lparr>wtext = ''Hello'', startTime = 0, endTime = 5\<rparr>],
          translation = None, isPreciseTiming = True, duration = None\<rparr>]"
  by (simp add: neteaseFromEntries_def sortBy_def mergeYrcWithTranslations_def assignOthers_def
      bucketLine_def longWordEntry_def exampleUtils_def displayTextSpec_def trim_def isSpace_def
      orElse_def wordsField_def toLowerCase_def differsFromMain_def Let_def)

text \<open>
  C2. On the content \<^verbatim>\<open>[0,10000](0,5000,0)Hello\<close>, \<^verbatim>\<open>parseNeteaseLyrics\<close> returns
  the word with start 0 and end 5, a duration above the ceiling of 2 seconds:
  \<^verbatim>\<open>parseNeteaseLyrics\<close> does not call \<^verbatim>\<open>fixAbnormalWordDurations\<close>, which on the
  parsed entry clamps the end of the word to 2.
\<close>

theorem C2_word_durations_not_sanitized:
  "parseNeteaseLyrics exampleUtils ''[0,10000](0,5000,0)Hello''
     = Some [\<lparr>time = 0, ltext = ''Hello'',
              words = Some [\<lparr>wtext = ''Hello'', startTime = 0, endTime = 5\<rparr>],
              translation = None, isPreciseTiming = True, duration = None\<rparr>]
   \<and> parseNeteaseLines exampleUtils ''[0,10000](0,5000,0)Hello'' = Some [longWordEntry]
   \<and> fixAbnormalWordDurations [longWordEntry]
       = [longWordEntry\<lparr>pwords := [\<lparr>wtext = ''Hello'', startTime = 0, endTime = 2\<rparr>]\<rparr>]"
  by (simp add: parseNeteaseLyrics_def yrcExample_parsed yrcExample_lines)
    (simp add: longWordEntry_def)

section \<open>Tolerance of the fallback match\<close>

























section \<open>Grouping of the line-timestamp parser\<close>



lemma transOn_subset: "A \<subseteq> B \<Longrightarrow> transOn cmp B \<Longrightarrow> transOn cmp A"
  unfolding transOn_def by blast

lemma set_insertBy: "set (insertBy cmp x xs) = insert x (set xs)"
  by (induction xs) auto

lemma set_sortBy: "set (sortBy cmp xs) = set xs"
  by (induction xs) (simp_all add: sortBy_def set_insertBy)

lemma length_insertBy: "length (insertBy cmp x xs) = Suc (length xs)"
  by (induction xs) auto

lemma length_sortBy: "length (sortBy cmp xs) = length xs"
  by (induction xs) (simp_all add: sortBy_def length_insertBy)

lemma mset_insertBy: "mset (insertBy cmp x xs) = add_mset x (mset xs)"
  by (induction xs) auto

lemma mset_sortBy: "mset (sortBy cmp xs) = mset xs"
  by (induction xs) (simp_all add: sortBy_def mset_insertBy)

lemma sortBy_Cons: "sortBy cmp (x # xs) = insertBy cmp x (sortBy cmp xs)"
  by (simp add: sortBy_def)

lemma sorted_insertBy:
  assumes tot: "totalCmp cmp" and tr: "transOn cmp (insert x (set xs))"
    and s: "sorted_wrt (\<lambda>a b. cmp a b \<le> 0) xs"
  shows "sorted_wrt (\<lambda>a b. cmp a b \<le> 0) (insertBy cmp x xs)"
  using tr s
proof (induction xs)
  case Nil
  then show ?case by simp
next
  case (Cons y ys)
  show ?case
  proof (cases "cmp x y \<le> 0")
    case True
    have "cmp x z \<le> 0" if "z \<in> set ys" for z
    proof -
      from Cons.prems(2) that have "cmp y z \<le> 0" by simp
      moreover have "x \<in> insert x (set (y # ys))" "y \<in> insert x (set (y # ys))"
        "z \<in> insert x (set (y # ys))"
        using that by simp_all
      ultimately show ?thesis
        using True Cons.prems(1) unfolding transOn_def by blast
    qed
    with True Cons.prems(2) show ?thesis by auto
  next
    case False
    with tot have yx: "cmp y x \<le> 0" unfolding totalCmp_def by blast
    have tr': "transOn cmp (insert x (set ys))"
      by (rule transOn_subset [OF _ Cons.prems(1)]) auto
    from Cons.prems(2) have "sorted_wrt (\<lambda>a b. cmp a b \<le> 0) ys" by simp
    from Cons.IH [OF tr' this] have "sorted_wrt (\<lambda>a b. cmp a b \<le> 0) (insertBy cmp x ys)" .
    moreover have "\<forall>z\<in>set (insertBy cmp x ys). cmp y z \<le> 0"
      using yx Cons.prems(2) by (simp add: set_insertBy)
    ultimately show ?thesis using False by simp
  qed
qed

lemma sorted_sortBy:
  assumes "totalCmp cmp" and "transOn cmp (set xs)"
  shows "sorted_wrt (\<lambda>a b. cmp a b \<le> 0) (sortBy cmp xs)"
  using assms(2)
proof (induction xs)
  case Nil
  then show ?case by (simp add: sortBy_def)
next
  case (Cons x xs)
  have "transOn cmp (set xs)"
    by (rule transOn_subset [OF _ Cons.prems]) auto
  from Cons.IH [OF this] have s: "sorted_wrt (\<lambda>a b. cmp a b \<le> 0) (sortBy cmp xs)" .
  have "transOn cmp (insert x (set (sortBy cmp xs)))"
    using Cons.prems by (simp add: set_sortBy)
  from sorted_insertBy [OF assms(1) this s] show ?case
    by (simp add: sortBy_Cons)
qed

lemma compareGroup_le:
  "(compareGroup a b \<le> 0) = outranks a b"
  by (auto simp: compareGroup_def outranks_def)

lemma outranks_trans: "outranks a b \<Longrightarrow> outranks b c \<Longrightarrow> outranks a c"
  by (auto simp: outranks_def)

lemma outranks_refl: "outranks a a"
  by (simp add: outranks_def)

lemma compareGroup_total: "totalCmp compareGroup"
  unfolding totalCmp_def compareGroup_le by (auto simp: outranks_def)

lemma compareGroup_trans: "transOn compareGroup A"
  unfolding transOn_def compareGroup_le by (blast intro: outranks_trans)

lemma sorted_group:
  "sorted_wrt outranks (sortBy compareGroup g)"
  using sorted_sortBy [OF compareGroup_total compareGroup_trans, of g]
  by (simp add: compareGroup_le)

lemma findIndex_Some:
  "findIndex P xs = Some i \<Longrightarrow> i < length xs \<and> P (xs ! i) \<and> (\<forall>j<i. \<not> P (xs ! j))"
proof (induction xs arbitrary: i)
  case Nil
  then show ?case by simp
next
  case (Cons x xs)
  show ?case
  proof (cases "P x")
    case True
    with Cons.prems show ?thesis by simp
  next
    case False
    with Cons.prems obtain k where k: "findIndex P xs = Some k" "i = Suc k"
      by auto
    from Cons.IH [OF k(1)] False k(2) show ?thesis
      by (auto simp: nth_Cons split: nat.splits)
  qed
qed

lemma findIndex_None: "(findIndex P xs = None) = (\<forall>x\<in>set xs. \<not> P x)"
  by (induction xs) auto

lemma findIndex_best:
  assumes s: "sorted_wrt outranks xs" and f: "findIndex P xs = Some i"
  shows "\<forall>e\<in>set xs. P e \<longrightarrow> outranks (xs ! i) e"
proof (intro ballI impI)
  fix e assume "e \<in> set xs" "P e"
  then obtain j where j: "j < length xs" "xs ! j = e"
    by (auto simp: in_set_conv_nth)
  from findIndex_Some [OF f] \<open>P e\<close> j have "\<not> j < i" by auto
  then consider "j = i" | "i < j" by linarith
  then show "outranks (xs ! i) e"
  proof cases
    case 1
    with j show ?thesis by (simp add: outranks_refl)
  next
    case 2
    from sorted_wrt_nth_less [OF s 2 j(1)] j(2) show ?thesis by simp
  qed
qed

lemma mainIndex_less: "xs \<noteq> [] \<Longrightarrow> mainIndex U xs < length xs"
  by (auto simp: mainIndex_def split: option.splits dest: findIndex_Some)

lemma sorted_head_best:
  assumes s: "sorted_wrt outranks xs" and ne: "xs \<noteq> []"
  shows "\<forall>e\<in>set xs. outranks (xs ! 0) e"
proof
  fix e assume "e \<in> set xs"
  then obtain j where j: "j < length xs" "xs ! j = e"
    by (auto simp: in_set_conv_nth)
  show "outranks (xs ! 0) e"
  proof (cases j)
    case 0
    with j show ?thesis by (simp add: outranks_refl)
  next
    case (Suc k)
    with sorted_wrt_nth_less [OF s, of 0 j] j show ?thesis by simp
  qed
qed

lemma mainEntry_priority:
  assumes ne: "g \<noteq> []"
  shows "mainEntry U g \<in> set g"
    and "mset (mainEntry U g # otherEntries U g) = mset g"
    and "(if \<exists>e\<in>set g. \<not> isMetadata e \<and> hasMeaningfulContent U e
          then \<not> isMetadata (mainEntry U g) \<and> hasMeaningfulContent U (mainEntry U g)
               \<and> (\<forall>e\<in>set g. \<not> isMetadata e \<and> hasMeaningfulContent U e
                     \<longrightarrow> outranks (mainEntry U g) e)
          else if \<exists>e\<in>set g. hasMeaningfulContent U e
          then hasMeaningfulContent U (mainEntry U g)
               \<and> (\<forall>e\<in>set g. hasMeaningfulContent U e \<longrightarrow> outranks (mainEntry U g) e)
          else \<forall>e\<in>set g. outranks (mainEntry U g) e)"
proof -
  let ?sg = "sortBy compareGroup g"
  let ?i = "mainIndex U ?sg"
  have sne: "?sg \<noteq> []"
    using ne length_sortBy [of compareGroup g] by auto
  have il: "?i < length ?sg"
    by (rule mainIndex_less [OF sne])
  have sset: "set ?sg = set g" by (rule set_sortBy)
  from il show "mainEntry U g \<in> set g"
    unfolding mainEntry_def using sset nth_mem by blast
  have "mset (?sg ! ?i # removeAt ?i ?sg) = mset ?sg"
    unfolding removeAt_def using il
    by (metis Cons_nth_drop_Suc append_take_drop_id union_code mset.simps(2) union_mset_add_mset_right)
  then show "mset (mainEntry U g # otherEntries U g) = mset g"
    by (simp add: mainEntry_def otherEntries_def mset_sortBy)
  note s = sorted_group [of g]
  show "(if \<exists>e\<in>set g. \<not> isMetadata e \<and> hasMeaningfulContent U e
          then \<not> isMetadata (mainEntry U g) \<and> hasMeaningfulContent U (mainEntry U g)
               \<and> (\<forall>e\<in>set g. \<not> isMetadata e \<and> hasMeaningfulContent U e
                     \<longrightarrow> outranks (mainEntry U g) e)
          else if \<exists>e\<in>set g. hasMeaningfulContent U e
          then hasMeaningfulContent U (mainEntry U g)
               \<and> (\<forall>e\<in>set g. hasMeaningfulContent U e \<longrightarrow> outranks (mainEntry U g) e)
          else \<forall>e\<in>set g. outranks (mainEntry U g) e)"
  proof (cases "findIndex (\<lambda>entry. \<not> isMetadata entry \<and> hasMeaningfulContent U entry) ?sg")
    case (Some i)
    then have mi: "?i = i" by (simp add: mainIndex_def)
    from findIndex_Some [OF Some] have p: "\<not> isMetadata (?sg ! i) \<and> hasMeaningfulContent U (?sg ! i)"
      by simp
    from findIndex_Some [OF Some] have "?sg ! i \<in> set g"
      using sset nth_mem by blast
    with p have ex: "\<exists>e\<in>set g. \<not> isMetadata e \<and> hasMeaningfulContent U e" by blast
    from findIndex_best [OF s Some] sset
    have "\<forall>e\<in>set g. \<not> isMetadata e \<and> hasMeaningfulContent U e \<longrightarrow> outranks (?sg ! i) e"
      by simp
    show ?thesis
      unfolding if_P [OF ex] mainEntry_def mi
      using p \<open>\<forall>e\<in>set g. \<not> isMetadata e \<and> hasMeaningfulContent U e \<longrightarrow> outranks (?sg ! i) e\<close>
      by blast
  next
    case None
    then have nex: "\<not> (\<exists>e\<in>set g. \<not> isMetadata e \<and> hasMeaningfulContent U e)"
      using sset by (simp add: findIndex_None)
    show ?thesis
    proof (cases "findIndex (\<lambda>entry. hasMeaningfulContent U entry) ?sg")
      case (Some i)
      with None have mi: "?i = i" by (simp add: mainIndex_def)
      from findIndex_Some [OF Some] have p: "hasMeaningfulContent U (?sg ! i)" by simp
      from findIndex_Some [OF Some] have "?sg ! i \<in> set g"
        using sset nth_mem by blast
      with p have ex: "\<exists>e\<in>set g. hasMeaningfulContent U e" by blast
      from findIndex_best [OF s Some] sset
      have "\<forall>e\<in>set g. hasMeaningfulContent U e \<longrightarrow> outranks (?sg ! i) e"
        by simp
      show ?thesis
        unfolding if_not_P [OF nex] if_P [OF ex] mainEntry_def mi
        using p \<open>\<forall>e\<in>set g. hasMeaningfulContent U e \<longrightarrow> outranks (?sg ! i) e\<close>
        by blast
    next
      case None': None
      with None have mi: "?i = 0" by (simp add: mainIndex_def)
      from None' have nex2: "\<not> (\<exists>e\<in>set g. hasMeaningfulContent U e)"
        using sset by (simp add: findIndex_None)
      from sorted_head_best [OF s sne] sset have "\<forall>e\<in>set g. outranks (?sg ! 0) e" by simp
      then show ?thesis
        unfolding if_not_P [OF nex] if_not_P [OF nex2] mainEntry_def mi .
    qed
  qed
qed

lemma groupLoop_groupsOf:
  "groupLoop U es = concat (map (groupLine U) (groupsOf es))"
  by (induction es rule: groupsOf.induct) simp_all

lemma concat_groupsOf: "concat (groupsOf es) = es"
  by (induction es rule: groupsOf.induct) simp_all

lemma withinGroup_self: "withinGroup c c"
  by (simp add: withinGroup_def)

lemma groupsOf_members:
  "g \<in> set (groupsOf es) \<Longrightarrow> g \<noteq> [] \<and> (\<forall>e\<in>set g. withinGroup (hd g) e)"
proof (induction es rule: groupsOf.induct)
  case 1
  then show ?case by simp
next
  case (2 current rest)
  from "2.prems" consider "g = current # takeWhile (withinGroup current) rest"
    | "g \<in> set (groupsOf (dropWhile (withinGroup current) rest))"
    by auto
  then show ?case
  proof cases
    case 1
    then show ?thesis
      by (auto simp: withinGroup_self dest: set_takeWhileD)
  next
    case 2
    with "2.IH" show ?thesis by simp
  qed
qed

lemma groupsOf_hd: "es \<noteq> [] \<Longrightarrow> hd (hd (groupsOf es)) = hd es"
  by (cases es) simp_all

lemma groupsOf_Nil: "(groupsOf es = []) = (es = [])"
  by (cases es) simp_all

lemma groupsOf_boundary:
  "Suc k < length (groupsOf es) \<Longrightarrow>
     \<not> withinGroup (hd (groupsOf es ! k)) (hd (groupsOf es ! Suc k))"
proof (induction es arbitrary: k rule: groupsOf.induct)
  case 1
  then show ?case by simp
next
  case (2 current rest)
  let ?rest' = "dropWhile (withinGroup current) rest"
  show ?case
  proof (cases k)
    case 0
    with "2.prems" have ne: "groupsOf ?rest' \<noteq> []" by auto
    then have rne: "?rest' \<noteq> []" by (simp add: groupsOf_Nil)
    then have "\<not> withinGroup current (hd ?rest')"
      by (rule hd_dropWhile)
    moreover have "hd (groupsOf ?rest' ! 0) = hd ?rest'"
      using groupsOf_hd [OF rne] ne by (simp add: hd_conv_nth)
    ultimately show ?thesis using 0 by simp
  next
    case (Suc j)
    with "2.prems" have "Suc j < length (groupsOf ?rest')" by simp
    from "2.IH" [OF this] Suc show ?thesis by simp
  qed
qed

lemma toLowerCase_Nil: "(toLowerCase t = []) = (t = [])"
  by (simp add: toLowerCase_def)

lemma differsFromMain_eq:
  "differsFromMain (toLowerCase mt) = (\<lambda>t. t \<noteq> [] \<and> toLowerCase t \<noteq> toLowerCase mt)"
proof
  fix t
  show "differsFromMain (toLowerCase mt) t = (t \<noteq> [] \<and> toLowerCase t \<noteq> toLowerCase mt)"
  proof (cases "toLowerCase mt = []")
    case True
    then show ?thesis
      using toLowerCase_Nil [of t] by (auto simp: differsFromMain_def)
  next
    case False
    then show ?thesis by (auto simp: differsFromMain_def)
  qed
qed

lemma joinNl_nonempty:
  "ps \<noteq> [] \<Longrightarrow> \<forall>p\<in>set ps. p \<noteq> [] \<Longrightarrow> joinNl ps \<noteq> []"
  by (induction ps rule: joinNl.induct) simp_all

lemma orElse_empty: "orElse a [] = a"
  by (simp add: orElse_def)

lemma groupLine_eq:
  "groupLine U g =
     (if isMetadata (mainEntry U g) then []
      else [(\<lparr>time = ptime (mainEntry U g), ltext = mainTextOf U (mainEntry U g),
              words = wordsField (mainEntry U g),
              translation = (if translationParts U g = [] then None
                             else Some (joinNl (translationParts U g))),
              isPreciseTiming = False, duration = None\<rparr>,
             originalIndex (mainEntry U g))])"
proof -
  have ne: "\<forall>p\<in>set (translationParts U g). p \<noteq> []"
    by (simp add: translationParts_def)
  then have j: "translationParts U g \<noteq> [] \<Longrightarrow> joinNl (translationParts U g) \<noteq> []"
    by (rule joinNl_nonempty [rotated])
  have parts: "filter (differsFromMain (toLowerCase (mainTextOf U (mainEntry U g))))
          (map (getEntryDisplayText U)
            (filter (\<lambda>entry. \<not> isMetadata entry \<and> hasMeaningfulContent U entry)
              (otherEntries U g))) = translationParts U g"
    by (simp add: translationParts_def differsFromMain_eq)
  show ?thesis
    using j
    by (simp add: groupLine_def Let_def orElse_empty parts
        mainEntry_def [symmetric] otherEntries_def [symmetric] mainTextOf_def [symmetric])
qed

lemma lowerChar_caseFold: "lowerChar c = caseFold c"
proof -
  have "\<forall>c. lowerChar c = caseFold c" by code_simp
  then show ?thesis by blast
qed

lemma toLowerCase_caseFold: "toLowerCase s = map caseFold s"
  by (simp add: toLowerCase_def lowerChar_caseFold)

lemma joinNl_concat:
  "joinNl ps = (case ps of [] \<Rightarrow> [] | p # r \<Rightarrow> p @ concat (map ((#) (CHR 0x0A)) r))"
  by (induction ps rule: joinNl.induct) simp_all

text \<open>
  C6. \<^verbatim>\<open>groupAndMergeLines\<close> cuts the entries into consecutive groups: a group is its
  first entry and the entries that follow while their time is less than 0.1 from the time
  of that first entry, and the entry that opens the next group is not. Within a group the
  main entry is, among the non-metadata entries with meaningful content (else among the
  entries with meaningful content, else among all), one with the highest tag count and,
  among those, the lowest original index. A group whose main entry is metadata yields no
  line. Another group yields one line, with the time, text and words of the main entry and
  no precise timing, whose translation joins with newlines the display texts of the other
  non-metadata meaningful entries of the group that are non-empty and differ from the main
  text up to case, and is absent when there are none. The join puts a line feed between
  consecutive parts, and two texts are equal up to case when they are equal after every
  upper-case letter is replaced by its lower-case letter.
\<close>

theorem C6_groupAndMergeLines:
  "groupAndMergeLines U entries = map fst (concat (map (groupLine U) (groupsOf entries)))
   \<and> concat (groupsOf entries) = entries
   \<and> (\<forall>g\<in>set (groupsOf entries). g \<noteq> [] \<and> (\<forall>e\<in>set g. withinGroup (hd g) e))
   \<and> (\<forall>k. Suc k < length (groupsOf entries) \<longrightarrow>
         \<not> withinGroup (hd (groupsOf entries ! k)) (hd (groupsOf entries ! Suc k)))
   \<and> (\<forall>c e. withinGroup c e = (\<bar>ptime e - ptime c\<bar> < 0.1))
   \<and> (\<forall>g. g \<noteq> [] \<longrightarrow>
         mainEntry U g \<in> set g
         \<and> mset (mainEntry U g # otherEntries U g) = mset g
         \<and> (if \<exists>e\<in>set g. \<not> isMetadata e \<and> hasMeaningfulContent U e
             then \<not> isMetadata (mainEntry U g) \<and> hasMeaningfulContent U (mainEntry U g)
                  \<and> (\<forall>e\<in>set g. \<not> isMetadata e \<and> hasMeaningfulContent U e
                        \<longrightarrow> outranks (mainEntry U g) e)
             else if \<exists>e\<in>set g. hasMeaningfulContent U e
             then hasMeaningfulContent U (mainEntry U g)
                  \<and> (\<forall>e\<in>set g. hasMeaningfulContent U e \<longrightarrow> outranks (mainEntry U g) e)
             else \<forall>e\<in>set g. outranks (mainEntry U g) e))
   \<and> (\<forall>g. groupLine U g =
         (if isMetadata (mainEntry U g) then []
          else [(\<lparr>time = ptime (mainEntry U g), ltext = mainTextOf U (mainEntry U g),
                  words = wordsField (mainEntry U g),
                  translation = (if translationParts U g = [] then None
                                 else Some (joinNl (translationParts U g))),
                  isPreciseTiming = False, duration = None\<rparr>,
                 originalIndex (mainEntry U g))]))
   \<and> (\<forall>g. translationParts U g =
         filter (\<lambda>t. t \<noteq> [] \<and> map caseFold t \<noteq> map caseFold (mainTextOf U (mainEntry U g)))
           (map (getEntryDisplayText U)
             (filter (\<lambda>e. \<not> isMetadata e \<and> hasMeaningfulContent U e) (otherEntries U g))))
   \<and> (\<forall>ps. joinNl ps = (case ps of [] \<Rightarrow> [] | p # r \<Rightarrow> p @ concat (map ((#) (CHR 0x0A)) r)))
   \<and> (\<forall>s. toLowerCase s = map caseFold s)"
proof -
  have a: "groupAndMergeLines U entries = map fst (concat (map (groupLine U) (groupsOf entries)))"
    by (simp add: groupAndMergeLines_def groupLoop_groupsOf)
  have b: "\<forall>g\<in>set (groupsOf entries). g \<noteq> [] \<and> (\<forall>e\<in>set g. withinGroup (hd g) e)"
    using groupsOf_members by blast
  have c: "\<forall>k. Suc k < length (groupsOf entries) \<longrightarrow>
         \<not> withinGroup (hd (groupsOf entries ! k)) (hd (groupsOf entries ! Suc k))"
    using groupsOf_boundary by blast
  have d: "\<forall>c e. withinGroup c e = (\<bar>ptime e - ptime c\<bar> < 0.1)"
    by (simp add: withinGroup_def)
  have e: "\<forall>g. g \<noteq> [] \<longrightarrow>
         mainEntry U g \<in> set g
         \<and> mset (mainEntry U g # otherEntries U g) = mset g
         \<and> (if \<exists>e\<in>set g. \<not> isMetadata e \<and> hasMeaningfulContent U e
             then \<not> isMetadata (mainEntry U g) \<and> hasMeaningfulContent U (mainEntry U g)
                  \<and> (\<forall>e\<in>set g. \<not> isMetadata e \<and> hasMeaningfulContent U e
                        \<longrightarrow> outranks (mainEntry U g) e)
             else if \<exists>e\<in>set g. hasMeaningfulContent U e
             then hasMeaningfulContent U (mainEntry U g)
                  \<and> (\<forall>e\<in>set g. hasMeaningfulContent U e \<longrightarrow> outranks (mainEntry U g) e)
             else \<forall>e\<in>set g. outranks (mainEntry U g) e)"
    using mainEntry_priority by blast
  have f: "\<forall>g. groupLine U g =
         (if isMetadata (mainEntry U g) then []
          else [(\<lparr>time = ptime (mainEntry U g), ltext = mainTextOf U (mainEntry U g),
                  words = wordsField (mainEntry U g),
                  translation = (if translationParts U g = [] then None
                                 else Some (joinNl (translationParts U g))),
                  isPreciseTiming = False, duration = None\<rparr>,
                 originalIndex (mainEntry U g))])"
    using groupLine_eq by blast
  have h: "\<forall>g. translationParts U g =
         filter (\<lambda>t. t \<noteq> [] \<and> map caseFold t \<noteq> map caseFold (mainTextOf U (mainEntry U g)))
           (map (getEntryDisplayText U)
             (filter (\<lambda>e. \<not> isMetadata e \<and> hasMeaningfulContent U e) (otherEntries U g)))"
    by (simp add: translationParts_def toLowerCase_caseFold)
  have j: "\<forall>ps. joinNl ps = (case ps of [] \<Rightarrow> [] | p # r \<Rightarrow> p @ concat (map ((#) (CHR 0x0A)) r))"
    using joinNl_concat by blast
  have l: "\<forall>s. toLowerCase s = map caseFold s"
    using toLowerCase_caseFold by blast
  from a b c d e f concat_groupsOf [of entries] have "groupAndMergeLines U entries = map fst (concat (map (groupLine U) (groupsOf entries)))
   \<and> concat (groupsOf entries) = entries
   \<and> (\<forall>g\<in>set (groupsOf entries). g \<noteq> [] \<and> (\<forall>e\<in>set g. withinGroup (hd g) e))
   \<and> (\<forall>k. Suc k < length (groupsOf entries) \<longrightarrow>
         \<not> withinGroup (hd (groupsOf entries ! k)) (hd (groupsOf entries ! Suc k)))
   \<and> (\<forall>c e. withinGroup c e = (\<bar>ptime e - ptime c\<bar> < 0.1))" by blast
  with e f h j l show ?thesis by (intro conjI) blast+
qed

theorem C6_groupAndMergeLines_witness:
  "groupsOf exampleEntries
     = [[plainEntry 10 ''Hello'' 0, plainEntry 10.02 ''HELLO'' 1, plainEntry 10.04 ''Bonjour'' 2,
           plainEntry 10.06 ''Hallo'' 3],
        [plainEntry 20 [CHR 0xC9, CHR ''T'', CHR 0xC9] 4,
           plainEntry 20.01 [CHR 0xE9, CHR ''t'', CHR 0xE9] 5]]
   \<and> Suc 0 < length (groupsOf exampleEntries)
   \<and> \<not> withinGroup (plainEntry 10 ''Hello'' 0) (plainEntry 20 [CHR 0xC9, CHR ''T'', CHR 0xC9] 4)
   \<and> mainEntry exampleUtils
         [plainEntry 10 ''Hello'' 0, plainEntry 10.02 ''HELLO'' 1, plainEntry 10.04 ''Bonjour'' 2,
           plainEntry 10.06 ''Hallo'' 3]
       = plainEntry 10 ''Hello'' 0
   \<and> (\<exists>e\<in>set [plainEntry 10 ''Hello'' 0, plainEntry 10.02 ''HELLO'' 1, plainEntry 10.04 ''Bonjour'' 2,
           plainEntry 10.06 ''Hallo'' 3].
         \<not> isMetadata e \<and> hasMeaningfulContent exampleUtils e)
   \<and> outranks (plainEntry 10 ''Hello'' 0) (plainEntry 10.04 ''Bonjour'' 2)
   \<and> translationParts exampleUtils
         [plainEntry 10 ''Hello'' 0, plainEntry 10.02 ''HELLO'' 1, plainEntry 10.04 ''Bonjour'' 2,
           plainEntry 10.06 ''Hallo'' 3]
       = [''Bonjour'', ''Hallo'']
   \<and> translationParts exampleUtils
         [plainEntry 20 [CHR 0xC9, CHR ''T'', CHR 0xC9] 4,
           plainEntry 20.01 [CHR 0xE9, CHR ''t'', CHR 0xE9] 5]
       = []
   \<and> joinNl [''Bonjour'', ''Hallo''] = ''Bonjour'' @ [CHR 0x0A] @ ''Hallo''
   \<and> toLowerCase ''HELLO'' = ''hello''
   \<and> toLowerCase [CHR 0xC9, CHR ''T'', CHR 0xC9] = [CHR 0xE9, CHR ''t'', CHR 0xE9]
   \<and> groupAndMergeLines exampleUtils exampleEntries
       = [(plainLine 10 ''Hello'')\<lparr>translation := Some (''Bonjour'' @ [CHR 0x0A] @ ''Hallo'')\<rparr>,
          plainLine 20 [CHR 0xC9, CHR ''T'', CHR 0xC9]]"
proof -
  let ?g1 = "[plainEntry 10 ''Hello'' 0, plainEntry 10.02 ''HELLO'' 1, plainEntry 10.04 ''Bonjour'' 2,
           plainEntry 10.06 ''Hallo'' 3]"
  let ?g2 = "[plainEntry 20 [CHR 0xC9, CHR ''T'', CHR 0xC9] 4,
           plainEntry 20.01 [CHR 0xE9, CHR ''t'', CHR 0xE9] 5]"
  have g: "groupsOf exampleEntries = [?g1, ?g2]"
    by code_simp
  have m: "mainEntry exampleUtils ?g1 = plainEntry 10 ''Hello'' 0"
    by code_simp
  have ex: "\<exists>e\<in>set ?g1. \<not> isMetadata e \<and> hasMeaningfulContent exampleUtils e"
    by code_simp
  have t1: "translationParts exampleUtils ?g1 = [''Bonjour'', ''Hallo'']"
    by code_simp
  have t2: "translationParts exampleUtils ?g2 = []"
    by code_simp
  have lo: "toLowerCase ''HELLO'' = ''hello''"
    "toLowerCase [CHR 0xC9, CHR ''T'', CHR 0xC9] = [CHR 0xE9, CHR ''t'', CHR 0xE9]"
    by code_simp+
  have r: "groupAndMergeLines exampleUtils exampleEntries
       = [(plainLine 10 ''Hello'')\<lparr>translation := Some (''Bonjour'' @ [CHR 0x0A] @ ''Hallo'')\<rparr>,
          plainLine 20 [CHR 0xC9, CHR ''T'', CHR 0xC9]]"
    by code_simp
  have hb: "\<not> isMetadata (plainEntry 10.04 ''Bonjour'' 2)
            \<and> hasMeaningfulContent exampleUtils (plainEntry 10.04 ''Bonjour'' 2)"
    by code_simp
  note th = C6_groupAndMergeLines [of exampleUtils exampleEntries]
  from th have bd: "\<forall>k. Suc k < length (groupsOf exampleEntries) \<longrightarrow>
         \<not> withinGroup (hd (groupsOf exampleEntries ! k)) (hd (groupsOf exampleEntries ! Suc k))"
    by blast
  have w: "\<not> withinGroup (plainEntry 10 ''Hello'' 0) (plainEntry 20 [CHR 0xC9, CHR ''T'', CHR 0xC9] 4)"
    using bd [rule_format, of 0] unfolding g by simp
  from th have pr: "\<forall>g. g \<noteq> [] \<longrightarrow>
         mainEntry exampleUtils g \<in> set g
         \<and> mset (mainEntry exampleUtils g # otherEntries exampleUtils g) = mset g
         \<and> (if \<exists>e\<in>set g. \<not> isMetadata e \<and> hasMeaningfulContent exampleUtils e
             then \<not> isMetadata (mainEntry exampleUtils g)
                  \<and> hasMeaningfulContent exampleUtils (mainEntry exampleUtils g)
                  \<and> (\<forall>e\<in>set g. \<not> isMetadata e \<and> hasMeaningfulContent exampleUtils e
                        \<longrightarrow> outranks (mainEntry exampleUtils g) e)
             else if \<exists>e\<in>set g. hasMeaningfulContent exampleUtils e
             then hasMeaningfulContent exampleUtils (mainEntry exampleUtils g)
                  \<and> (\<forall>e\<in>set g. hasMeaningfulContent exampleUtils e
                        \<longrightarrow> outranks (mainEntry exampleUtils g) e)
             else \<forall>e\<in>set g. outranks (mainEntry exampleUtils g) e)"
    by blast
  have "\<forall>e\<in>set ?g1. \<not> isMetadata e \<and> hasMeaningfulContent exampleUtils e
            \<longrightarrow> outranks (plainEntry 10 ''Hello'' 0) e"
    using pr [rule_format, of ?g1]
    unfolding if_P [OF ex] m by blast
  with hb have o: "outranks (plainEntry 10 ''Hello'' 0) (plainEntry 10.04 ''Bonjour'' 2)"
    by simp
  from th have "\<forall>ps. joinNl ps = (case ps of [] \<Rightarrow> [] | p # r \<Rightarrow> p @ concat (map ((#) (CHR 0x0A)) r))"
    by blast
  then have j: "joinNl [''Bonjour'', ''Hallo''] = ''Bonjour'' @ [CHR 0x0A] @ ''Hallo''"
    by simp
  from g m ex r w o t1 t2 j lo show ?thesis by (simp del: groupsOf.simps)
qed

section \<open>Assignment to buckets in the word-synced parser\<close>

lemma closest_fold:
  fixes bs :: "bucket list"
  assumes "fold (closestStep line) (enumerate n bs) best = r"
  shows "(r = None \<longrightarrow> best = None \<and> bs = [])
       \<and> (\<forall>i d. r = Some (i, d) \<longrightarrow>
            (best = Some (i, d) \<and> (\<forall>j<length bs. d \<le> \<bar>ptime (fst (bs ! j)) - ptime line\<bar>))
            \<or> (n \<le> i \<and> i < n + length bs \<and> d = \<bar>ptime (fst (bs ! (i - n))) - ptime line\<bar>
                \<and> (\<forall>i0 d0. best = Some (i0, d0) \<longrightarrow> d < d0)
                \<and> (\<forall>j<length bs. d \<le> \<bar>ptime (fst (bs ! j)) - ptime line\<bar>)
                \<and> (\<forall>j<i - n. d < \<bar>ptime (fst (bs ! j)) - ptime line\<bar>)))"
  using assms
proof (induction bs arbitrary: n best r)
  case Nil
  then show ?case by (cases r) auto
next
  case (Cons b bs)
  let ?db = "\<bar>ptime (fst b) - ptime line\<bar>"
  let ?best1 = "closestStep line (n, b) best"
  from Cons.prems have f: "fold (closestStep line) (enumerate (Suc n) bs) ?best1 = r"
    by simp
  note ih = Cons.IH [OF f]
  have step: "(best = None \<and> ?best1 = Some (n, ?db))
      \<or> (\<exists>i0 d0. best = Some (i0, d0) \<and> ?db < d0 \<and> ?best1 = Some (n, ?db))
      \<or> (\<exists>i0 d0. best = Some (i0, d0) \<and> \<not> ?db < d0 \<and> ?best1 = best)"
    by (cases best) (auto simp: closestStep_def Let_def)
  have rn: "r \<noteq> None"
    using ih step by auto
  have "(best = Some (i, d) \<and> (\<forall>j<length (b # bs). d \<le> \<bar>ptime (fst ((b # bs) ! j)) - ptime line\<bar>))
            \<or> (n \<le> i \<and> i < n + length (b # bs) \<and> d = \<bar>ptime (fst ((b # bs) ! (i - n))) - ptime line\<bar>
                \<and> (\<forall>i0 d0. best = Some (i0, d0) \<longrightarrow> d < d0)
                \<and> (\<forall>j<length (b # bs). d \<le> \<bar>ptime (fst ((b # bs) ! j)) - ptime line\<bar>)
                \<and> (\<forall>j<i - n. d < \<bar>ptime (fst ((b # bs) ! j)) - ptime line\<bar>))"
    if r: "r = Some (i, d)" for i d
  proof -
    from ih r
    consider (keep) "?best1 = Some (i, d)" "\<forall>j<length bs. d \<le> \<bar>ptime (fst (bs ! j)) - ptime line\<bar>"
      | (new) "Suc n \<le> i" "i < Suc n + length bs"
          "d = \<bar>ptime (fst (bs ! (i - Suc n))) - ptime line\<bar>"
          "\<forall>i0 d0. ?best1 = Some (i0, d0) \<longrightarrow> d < d0"
          "\<forall>j<length bs. d \<le> \<bar>ptime (fst (bs ! j)) - ptime line\<bar>"
          "\<forall>j<i - Suc n. d < \<bar>ptime (fst (bs ! j)) - ptime line\<bar>"
      by blast
    then show ?thesis
    proof cases
      case keep
      from step show ?thesis
      proof (elim disjE exE conjE)
        assume "best = None" "?best1 = Some (n, ?db)"
        with keep have "i = n" "d = ?db" by simp_all
        with keep(2) \<open>best = None\<close> show ?thesis
          by (auto simp: nth_Cons split: nat.splits)
      next
        fix i0 d0 assume "best = Some (i0, d0)" "?db < d0" "?best1 = Some (n, ?db)"
        with keep have "i = n" "d = ?db" by simp_all
        with keep(2) \<open>best = Some (i0, d0)\<close> \<open>?db < d0\<close> show ?thesis
          by (auto simp: nth_Cons split: nat.splits)
      next
        fix i0 d0 assume "best = Some (i0, d0)" "\<not> ?db < d0" "?best1 = best"
        with keep have "best = Some (i, d)" "d \<le> ?db" by simp_all
        with keep(2) show ?thesis
          by (auto simp: nth_Cons split: nat.splits)
      qed
    next
      case new
      have dlt: "d < ?db \<and> (\<forall>i0 d0. best = Some (i0, d0) \<longrightarrow> d < d0)"
        using step new(4) by (elim disjE exE conjE) auto
      have idx: "i - n = Suc (i - Suc n)" using new(1) by simp
      have "\<forall>j<length (b # bs). d \<le> \<bar>ptime (fst ((b # bs) ! j)) - ptime line\<bar>"
        using dlt new(5) by (auto simp: nth_Cons split: nat.splits)
      moreover have "\<forall>j<i - n. d < \<bar>ptime (fst ((b # bs) ! j)) - ptime line\<bar>"
        using dlt new(6) idx by (auto simp: nth_Cons split: nat.splits)
      moreover have "d = \<bar>ptime (fst ((b # bs) ! (i - n))) - ptime line\<bar>"
        using new(3) idx by simp
      ultimately show ?thesis using new(1,2) dlt by auto
    qed
  qed
  with rn show ?case by blast
qed

lemma closestBucket_None: "(closestBucket bs line = None) = (bs = [])"
  using closest_fold [of line 0 bs None "closestBucket bs line"]
  by (auto simp: closestBucket_def)

lemma closestBucket_Some:
  assumes "closestBucket bs line = Some (i, d)"
  shows "nearestIndex (map fst bs) line i \<and> d = \<bar>ptime (fst (bs ! i)) - ptime line\<bar>"
proof -
  have f: "fold (closestStep line) (enumerate 0 bs) None = Some (i, d)"
    using assms by (simp add: closestBucket_def)
  from closest_fold [OF f]
  have "(None = Some (i, d) \<and> (\<forall>j<length bs. d \<le> \<bar>ptime (fst (bs ! j)) - ptime line\<bar>))
            \<or> (0 \<le> i \<and> i < 0 + length bs \<and> d = \<bar>ptime (fst (bs ! (i - 0))) - ptime line\<bar>
                \<and> (\<forall>i0 d0. None = Some (i0, d0) \<longrightarrow> d < d0)
                \<and> (\<forall>j<length bs. d \<le> \<bar>ptime (fst (bs ! j)) - ptime line\<bar>)
                \<and> (\<forall>j<i - 0. d < \<bar>ptime (fst (bs ! j)) - ptime line\<bar>))"
    by blast
  then have il: "i < length bs" and d: "d = \<bar>ptime (fst (bs ! i)) - ptime line\<bar>"
    and a: "\<forall>j<length bs. d \<le> \<bar>ptime (fst (bs ! j)) - ptime line\<bar>"
    and b: "\<forall>j<i. d < \<bar>ptime (fst (bs ! j)) - ptime line\<bar>"
    by auto
  have "nearestIndex (map fst bs) line i"
    unfolding nearestIndex_def using il a b unfolding d by simp
  with d show ?thesis by blast
qed

lemma nearestIndex_unique:
  assumes "nearestIndex mains line i" "nearestIndex mains line j"
  shows "i = j"
proof (rule ccontr)
  assume "i \<noteq> j"
  then consider "i < j" | "j < i" by linarith
  then show False
  proof cases
    case 1
    from assms(2) 1 have "\<bar>ptime (mains ! j) - ptime line\<bar> < \<bar>ptime (mains ! i) - ptime line\<bar>"
      by (simp add: nearestIndex_def)
    moreover from assms have "\<bar>ptime (mains ! i) - ptime line\<bar> \<le> \<bar>ptime (mains ! j) - ptime line\<bar>"
      by (simp add: nearestIndex_def)
    ultimately show False by simp
  next
    case 2
    from assms(1) 2 have "\<bar>ptime (mains ! i) - ptime line\<bar> < \<bar>ptime (mains ! j) - ptime line\<bar>"
      by (simp add: nearestIndex_def)
    moreover from assms have "\<bar>ptime (mains ! j) - ptime line\<bar> \<le> \<bar>ptime (mains ! i) - ptime line\<bar>"
      by (simp add: nearestIndex_def)
    ultimately show False by simp
  qed
qed

lemma closestBucket_mains:
  assumes "map fst bs = map fst bs'"
  shows "closestBucket bs line = closestBucket bs' line"
proof (cases "closestBucket bs line")
  case None
  then have "bs = []" by (simp add: closestBucket_None)
  with assms have "bs' = []" by simp
  with None show ?thesis by (simp add: closestBucket_None)
next
  case (Some a)
  obtain i d where a: "a = (i, d)" by (cases a)
  from closestBucket_Some [of bs line i d] Some a
  have n: "nearestIndex (map fst bs) line i" and d: "d = \<bar>ptime (fst (bs ! i)) - ptime line\<bar>"
    by auto
  from n have il: "i < length bs" by (simp add: nearestIndex_def)
  have "bs' \<noteq> []" using assms il by auto
  then obtain a' where s': "closestBucket bs' line = Some a'"
    using closestBucket_None [of bs' line] by (cases "closestBucket bs' line") auto
  obtain i' d' where a': "a' = (i', d')" by (cases a')
  from closestBucket_Some [of bs' line i' d'] s' a'
  have n': "nearestIndex (map fst bs') line i'" and d': "d' = \<bar>ptime (fst (bs' ! i')) - ptime line\<bar>"
    by auto
  from nearestIndex_unique [OF n] n' assms have ii: "i = i'" by simp
  have "fst (bs ! i) = fst (bs' ! i)"
    using assms il by (metis length_map nth_map)
  with d d' ii have "d = d'" by simp
  with Some a s' a' ii show ?thesis by simp
qed

lemma assignedIndex_buckets:
  assumes "map fst bs = mains"
  shows "assignedIndex U mains line =
     (case closestBucket bs line of
        Some (closestIndex, minDiff) \<Rightarrow>
          if minDiff < 3.0 \<and> getEntryDisplayText U line \<noteq> [] then Some closestIndex else None
      | None \<Rightarrow> None)"
proof -
  have "closestBucket (map (\<lambda>yrc. (yrc, [])) mains) line = closestBucket bs line"
    by (rule closestBucket_mains) (simp add: assms [symmetric] comp_def)
  then show ?thesis by (simp add: assignedIndex_def)
qed

lemma assignedIndex_less:
  "assignedIndex U mains line = Some i \<Longrightarrow> i < length mains"
  using closestBucket_Some [of "map (\<lambda>yrc. (yrc, [])) mains" line i]
  by (auto simp: assignedIndex_def nearestIndex_def comp_def split: option.splits if_splits)

lemma assignLine_cases:
  assumes m: "map fst bs = mains"
  shows "assignLine U line (bs, os) =
     (if isMetadata line then (bs, os)
      else case assignedIndex U mains line of
             Some i \<Rightarrow> (pushTranslation bs i (getEntryDisplayText U line), os)
           | None \<Rightarrow> (bs, os @ [line]))"
  unfolding assignedIndex_buckets [OF m]
  by (auto simp: assignLine_def Let_def split: option.splits)

lemma pushTranslation_fst: "map fst (pushTranslation bs i t) = map fst bs"
  by (cases "i < length bs")
    (simp_all add: pushTranslation_def map_update list_update_same_conv list_update_beyond)

lemma pushTranslation_snd:
  "j < length bs \<Longrightarrow>
     snd (pushTranslation bs i t ! j) = (if j = i then snd (bs ! j) @ [t] else snd (bs ! j))"
  by (simp add: pushTranslation_def nth_list_update)

lemma assign_fold:
  assumes "map fst bs0 = mains" and "fold (assignLine U) ls (bs0, os0) = (bs, os)"
  shows "map fst bs = mains
       \<and> os = os0 @ filter (\<lambda>e. \<not> isMetadata e \<and> assignedIndex U mains e = None) ls
       \<and> (\<forall>i<length mains.
             snd (bs ! i) = snd (bs0 ! i)
               @ map (getEntryDisplayText U)
                   (filter (\<lambda>e. \<not> isMetadata e \<and> assignedIndex U mains e = Some i) ls))"
  using assms
proof (induction ls arbitrary: bs0 os0)
  case Nil
  then show ?case by simp
next
  case (Cons l ls)
  note m = Cons.prems(1)
  have len: "length bs0 = length mains" using m by (metis length_map)
  show ?case
  proof (cases "isMetadata l")
    case True
    with Cons.prems(2) have "fold (assignLine U) ls (bs0, os0) = (bs, os)"
      by (simp add: assignLine_cases [OF m])
    from Cons.IH [OF m this] True show ?thesis by simp
  next
    case False
    show ?thesis
    proof (cases "assignedIndex U mains l")
      case None
      with False Cons.prems(2) have "fold (assignLine U) ls (bs0, os0 @ [l]) = (bs, os)"
        by (simp add: assignLine_cases [OF m])
      from Cons.IH [OF m this] False None show ?thesis by simp
    next
      case (Some k)
      let ?bs1 = "pushTranslation bs0 k (getEntryDisplayText U l)"
      from Some False Cons.prems(2) have f: "fold (assignLine U) ls (?bs1, os0) = (bs, os)"
        by (simp add: assignLine_cases [OF m])
      have m1: "map fst ?bs1 = mains" using m by (simp add: pushTranslation_fst)
      from Cons.IH [OF m1 f]
      have ih: "map fst bs = mains"
        "os = os0 @ filter (\<lambda>e. \<not> isMetadata e \<and> assignedIndex U mains e = None) ls"
        "\<forall>i<length mains.
             snd (bs ! i) = snd (?bs1 ! i)
               @ map (getEntryDisplayText U)
                   (filter (\<lambda>e. \<not> isMetadata e \<and> assignedIndex U mains e = Some i) ls)"
        by simp_all
      have "snd (bs ! i) = snd (bs0 ! i)
               @ map (getEntryDisplayText U)
                   (filter (\<lambda>e. \<not> isMetadata e \<and> assignedIndex U mains e = Some i) (l # ls))"
        if i: "i < length mains" for i
        using ih(3) i len False Some by (simp add: pushTranslation_snd)
      with ih(1,2) False Some show ?thesis by simp
    qed
  qed
qed

lemma assignedIndex_iff:
  "(assignedIndex U mains line = Some i)
     = (nearestIndex mains line i \<and> \<bar>ptime (mains ! i) - ptime line\<bar> < 3.0
        \<and> getEntryDisplayText U line \<noteq> [])"
proof
  assume a: "assignedIndex U mains line = Some i"
  then obtain d where c: "closestBucket (map (\<lambda>yrc. (yrc, [])) mains) line = Some (i, d)"
    and d: "d < 3.0" and t: "getEntryDisplayText U line \<noteq> []"
    by (auto simp: assignedIndex_def split: option.splits if_splits)
  from closestBucket_Some [OF c]
  have n: "nearestIndex mains line i"
    and dd: "d = \<bar>ptime (fst (map (\<lambda>yrc. (yrc, [] :: string list)) mains ! i)) - ptime line\<bar>"
    by (auto simp: comp_def)
  from n have "i < length mains" by (simp add: nearestIndex_def)
  with dd have "d = \<bar>ptime (mains ! i) - ptime line\<bar>" by simp
  with n d t show "nearestIndex mains line i \<and> \<bar>ptime (mains ! i) - ptime line\<bar> < 3.0
        \<and> getEntryDisplayText U line \<noteq> []"
    by simp
next
  assume r: "nearestIndex mains line i \<and> \<bar>ptime (mains ! i) - ptime line\<bar> < 3.0
        \<and> getEntryDisplayText U line \<noteq> []"
  then have il: "i < length mains" by (simp add: nearestIndex_def)
  then have "map (\<lambda>yrc. (yrc, [] :: string list)) mains \<noteq> []" by auto
  then obtain a where c: "closestBucket (map (\<lambda>yrc. (yrc, [])) mains) line = Some a"
    using closestBucket_None [of "map (\<lambda>yrc. (yrc, [])) mains" line]
    by (cases "closestBucket (map (\<lambda>yrc. (yrc, [])) mains) line") auto
  obtain i' d where a: "a = (i', d)" by (cases a)
  from closestBucket_Some [of "map (\<lambda>yrc. (yrc, [])) mains" line i' d] c a
  have n: "nearestIndex mains line i'"
    and dd: "d = \<bar>ptime (fst (map (\<lambda>yrc. (yrc, [] :: string list)) mains ! i')) - ptime line\<bar>"
    by (auto simp: comp_def)
  from nearestIndex_unique [OF n] r have ii: "i' = i" by simp
  with dd il have "d = \<bar>ptime (mains ! i) - ptime line\<bar>" by simp
  with r c a ii show "assignedIndex U mains line = Some i"
    by (simp add: assignedIndex_def)
qed

lemma assignOthers_eq:
  "assignOthers U entries = (buckets, orphans) \<Longrightarrow>
     map fst buckets = filter (\<lambda>e. tagCount e \<ge> 1000) entries
     \<and> orphans = filter (\<lambda>e. \<not> isMetadata e
                        \<and> assignedIndex U (filter (\<lambda>e. tagCount e \<ge> 1000) entries) e = None)
                   (filter (\<lambda>e. tagCount e < 1000) entries)
     \<and> (\<forall>i<length (filter (\<lambda>e. tagCount e \<ge> 1000) entries).
           snd (buckets ! i)
             = map (getEntryDisplayText U)
                 (filter (\<lambda>e. \<not> isMetadata e
                           \<and> assignedIndex U (filter (\<lambda>e. tagCount e \<ge> 1000) entries) e = Some i)
                    (filter (\<lambda>e. tagCount e < 1000) entries)))"
proof -
  assume a: "assignOthers U entries = (buckets, orphans)"
  let ?yrc = "filter (\<lambda>e. tagCount e \<ge> 1000) entries"
  let ?bs0 = "map (\<lambda>yrc. (yrc, [] :: string list)) ?yrc"
  have m: "map fst ?bs0 = ?yrc" by (simp add: comp_def)
  from a have f: "fold (assignLine U) (filter (\<lambda>e. tagCount e < 1000) entries) (?bs0, []) = (buckets, orphans)"
    by (simp add: assignOthers_def Let_def)
  from assign_fold [OF m f] show ?thesis by simp
qed

text \<open>
  C7 as amended. The buckets are the word-synced entries, in order. A non-metadata entry
  with a tag count below 1000 goes to the first bucket at minimal distance in time when
  that distance is below 3.0 and the display text of the entry is not empty: its display
  text is appended to the translations of that bucket. Every other non-metadata entry with
  a tag count below 1000 becomes an orphan, whether it fails the tolerance, has an empty
  display text or finds no bucket; metadata entries become neither. An orphan is emitted as
  a line of its own without precise timing, and the result is the bucket lines followed by
  the orphan lines, sorted.
\<close>

theorem C7_mergeYrcWithTranslations_assignment:
  "(\<exists>buckets orphans.
      assignOthers U entries = (buckets, orphans)
      \<and> map fst buckets = filter (\<lambda>e. tagCount e \<ge> 1000) entries
      \<and> orphans = filter (\<lambda>e. \<not> isMetadata e
                         \<and> assignedIndex U (filter (\<lambda>e. tagCount e \<ge> 1000) entries) e = None)
                    (filter (\<lambda>e. tagCount e < 1000) entries)
      \<and> (\<forall>i<length (filter (\<lambda>e. tagCount e \<ge> 1000) entries).
            snd (buckets ! i)
              = map (getEntryDisplayText U)
                  (filter (\<lambda>e. \<not> isMetadata e
                            \<and> assignedIndex U (filter (\<lambda>e. tagCount e \<ge> 1000) entries) e = Some i)
                     (filter (\<lambda>e. tagCount e < 1000) entries)))
      \<and> mergeYrcWithTranslations U entries
          = map fst (sortBy (compareResult 0.001)
              (concat (map (bucketLine U) buckets) @ concat (map (orphanLine U) orphans))))
   \<and> (\<forall>mains line i.
         (assignedIndex U mains line = Some i)
           = (nearestIndex mains line i \<and> \<bar>ptime (mains ! i) - ptime line\<bar> < 3.0
              \<and> getEntryDisplayText U line \<noteq> []))
   \<and> (\<forall>orphan. \<not> isMetadata orphan \<longrightarrow>
         orphanLine U orphan
           = [(\<lparr>time = ptime orphan,
                ltext = orElse (getEntryDisplayText U orphan) (ptext orphan),
                words = wordsField orphan, translation = None,
                isPreciseTiming = False, duration = None\<rparr>,
               originalIndex orphan)])"
proof -
  obtain buckets orphans where a: "assignOthers U entries = (buckets, orphans)"
    by (cases "assignOthers U entries")
  have m: "mergeYrcWithTranslations U entries
          = map fst (sortBy (compareResult 0.001)
              (concat (map (bucketLine U) buckets) @ concat (map (orphanLine U) orphans)))"
    using a by (simp add: mergeYrcWithTranslations_def Let_def)
  have o: "\<forall>orphan. \<not> isMetadata orphan \<longrightarrow>
         orphanLine U orphan
           = [(\<lparr>time = ptime orphan,
                ltext = orElse (getEntryDisplayText U orphan) (ptext orphan),
                words = wordsField orphan, translation = None,
                isPreciseTiming = False, duration = None\<rparr>,
               originalIndex orphan)]"
    by (simp add: orphanLine_def)
  have i: "\<forall>mains line i.
         (assignedIndex U mains line = Some i)
           = (nearestIndex mains line i \<and> \<bar>ptime (mains ! i) - ptime line\<bar> < 3.0
              \<and> getEntryDisplayText U line \<noteq> [])"
    using assignedIndex_iff by blast
  from assignOthers_eq [OF a] a m o i show ?thesis by blast
qed

theorem C7_mergeYrcWithTranslations_assignment_witness:
  "assignOthers exampleUtils [yrcMain, plainEntry 12.5 ''Bonjour'' 1, plainEntry 40 ''Far'' 2]
     = ([(yrcMain, [''Bonjour''])], [plainEntry 40 ''Far'' 2])
   \<and> (0 :: nat) < length (filter (\<lambda>e. tagCount e \<ge> 1000)
                             [yrcMain, plainEntry 12.5 ''Bonjour'' 1, plainEntry 40 ''Far'' 2])
   \<and> assignedIndex exampleUtils [yrcMain] (plainEntry 12.5 ''Bonjour'' 1) = Some 0
   \<and> nearestIndex [yrcMain] (plainEntry 12.5 ''Bonjour'' 1) 0
   \<and> \<not> isMetadata (plainEntry 40 ''Far'' 2)
   \<and> orphanLine exampleUtils (plainEntry 40 ''Far'' 2) = [(plainLine 40 ''Far'', 2)]"
proof -
  have y: "filter (\<lambda>e. tagCount e \<ge> 1000)
             [yrcMain, plainEntry 12.5 ''Bonjour'' 1, plainEntry 40 ''Far'' 2] = [yrcMain]"
    by (simp add: yrcMain_def plainEntry_def)
  have a: "assignOthers exampleUtils [yrcMain, plainEntry 12.5 ''Bonjour'' 1, plainEntry 40 ''Far'' 2]
     = ([(yrcMain, [''Bonjour''])], [plainEntry 40 ''Far'' 2])"
    by (simp add: assignOthers_def assignLine_def closestBucket_def closestStep_def
        pushTranslation_def yrcMain_def plainEntry_def exampleUtils_def displayTextSpec_def Let_def)
  have n: "nearestIndex [yrcMain] (plainEntry 12.5 ''Bonjour'' 1) 0"
    by (simp add: nearestIndex_def)
  have d: "\<bar>ptime ([yrcMain] ! 0) - ptime (plainEntry 12.5 ''Bonjour'' 1)\<bar> < 3.0
           \<and> getEntryDisplayText exampleUtils (plainEntry 12.5 ''Bonjour'' 1) \<noteq> []"
    by (simp add: yrcMain_def plainEntry_def exampleUtils_def displayTextSpec_def)
  have m: "\<not> isMetadata (plainEntry 40 ''Far'' 2)"
    by (simp add: plainEntry_def)
  note th = C7_mergeYrcWithTranslations_assignment
    [of exampleUtils "[yrcMain, plainEntry 12.5 ''Bonjour'' 1, plainEntry 40 ''Far'' 2]"]
  from th n d have ai: "assignedIndex exampleUtils [yrcMain] (plainEntry 12.5 ''Bonjour'' 1) = Some 0"
    by blast
  from th m have "orphanLine exampleUtils (plainEntry 40 ''Far'' 2)
           = [(\<lparr>time = ptime (plainEntry 40 ''Far'' 2),
                ltext = orElse (getEntryDisplayText exampleUtils (plainEntry 40 ''Far'' 2))
                          (ptext (plainEntry 40 ''Far'' 2)),
                words = wordsField (plainEntry 40 ''Far'' 2), translation = None,
                isPreciseTiming = False, duration = None\<rparr>,
               originalIndex (plainEntry 40 ''Far'' 2))]"
    by blast
  then have ol: "orphanLine exampleUtils (plainEntry 40 ''Far'' 2) = [(plainLine 40 ''Far'', 2)]"
    by (simp add: plainEntry_def plainLine_def exampleUtils_def displayTextSpec_def orElse_def
        wordsField_def)
  from a y ai n m ol show ?thesis by simp
qed

text \<open>
  The input \<^verbatim>\<open>[12340,500](12340,500,0)Hello\<close> followed by the line \<^verbatim>\<open>[00:12.34]\<close>
  parses to one word-synced entry and one entry with an empty text at the same time.
\<close>

lemma emptyText_split:
  "splitNl emptyTextContent = [''[12340,500](12340,500,0)Hello'', ''[00:12.34]'']"
  by code_simp

lemma emptyText_trim:
  "trim ''[12340,500](12340,500,0)Hello'' = ''[12340,500](12340,500,0)Hello''"
  "trim ''[00:12.34]'' = ''[00:12.34]''"
  by code_simp+

lemma emptyText_yrc:
  "matchYrcLine ''[12340,500](12340,500,0)Hello'' = Some (''12340'', ''500'', ''(12340,500,0)Hello'')"
  "matchAllYrcWords ''(12340,500,0)Hello'' = [((''12340'', ''500'', ''0''), ''Hello'')]"
  "matchYrcLine ''[00:12.34]'' = None"
  by code_simp+

lemma emptyText_ints: "parseInt ''12340'' = 12340" "parseInt ''500'' = 500"
  by (simp_all add: parseInt_def digitVal_def)

lemma emptyText_main:
  "parseYrcLine exampleUtils ''[12340,500](12340,500,0)Hello'' 0 = Some yrcMain"
  by (simp add: parseYrcLine_def emptyText_yrc emptyText_ints yrcWord_def createWord_def
      exampleUtils_def mergePunctuationSpec_def punctuationOnly_def yrcMain_def Let_def
      del: matchAllYrcWords.simps)

lemma emptyText_other:
  "parseFallbackLrcLine exampleUtils ''[00:12.34]'' 1 = Some (Some (plainEntry 12.34 [] 1))"
  by code_simp

lemma emptyText_notYrc: "parseYrcLine exampleUtils ''[00:12.34]'' i = None"
  by (simp add: parseYrcLine_def emptyText_yrc)

lemma emptyText_parsed:
  "parseNeteaseLines exampleUtils emptyTextContent = Some [yrcMain, plainEntry 12.34 [] 1]"
  using emptyText_other
  by (simp add: parseNeteaseLines_def parseNeteaseLine_def emptyText_split emptyText_trim
      emptyText_main emptyText_notYrc startsWith_def enumerate_eq_zip)

lemma emptyText_sorted:
  "sortBy (compareEntries 0.01) [yrcMain, plainEntry 12.34 [] 1] = [yrcMain, plainEntry 12.34 [] 1]"
  by (simp add: sortBy_def compareEntries_def yrcMain_def plainEntry_def)

lemma emptyText_hasYrc:
  "list_ex (\<lambda>e. tagCount e \<ge> 1000) [yrcMain, plainEntry 12.34 [] 1]"
  by (simp add: yrcMain_def)

lemma emptyText_entries:
  "neteaseFromEntries exampleUtils [yrcMain, plainEntry 12.34 [] 1]
     = mergeYrcWithTranslations exampleUtils [yrcMain, plainEntry 12.34 [] 1]"
  unfolding neteaseFromEntries_def Let_def emptyText_sorted
  using emptyText_hasYrc by (simp only: if_True)

lemma emptyText_lyrics:
  "parseNeteaseLyrics exampleUtils emptyTextContent
     = Some (mergeYrcWithTranslations exampleUtils [yrcMain, plainEntry 12.34 [] 1])"
  using emptyText_entries by (simp add: parseNeteaseLyrics_def emptyText_parsed)

text \<open>
  C7 as stated fails on an entry with an empty display text: the entry at 12.34 with
  empty text is not metadata, has a tag count below 1000 and lies at distance 0, below
  3.0, from the only bucket, yet no translation is assigned to the bucket and the entry is
  emitted as an orphan line. The two entries are those of the input
  \<^verbatim>\<open>[12340,500](12340,500,0)Hello\<close>, \<^verbatim>\<open>[00:12.34]\<close>, whose parse ends with the orphan line.
\<close>

theorem C7_empty_text_counterexample:
  "\<not> isMetadata (plainEntry 12.34 [] 1)
   \<and> tagCount (plainEntry 12.34 [] 1) < 1000
   \<and> closestBucket [(yrcMain, [])] (plainEntry 12.34 [] 1) = Some (0, 0)
   \<and> assignOthers exampleUtils [yrcMain, plainEntry 12.34 [] 1]
       = ([(yrcMain, [])], [plainEntry 12.34 [] 1])
   \<and> mergeYrcWithTranslations exampleUtils [yrcMain, plainEntry 12.34 [] 1]
       = [\<lparr>time = 12.34, ltext = ''Hello'',
            words = Some [\<lparr>wtext = ''Hello'', startTime = 12.34, endTime = 12.84\<rparr>],
            translation = None, isPreciseTiming = True, duration = None\<rparr>,
          plainLine 12.34 []]
   \<and> parseNeteaseLines exampleUtils emptyTextContent = Some [yrcMain, plainEntry 12.34 [] 1]
   \<and> parseNeteaseLyrics exampleUtils emptyTextContent
       = Some [\<lparr>time = 12.34, ltext = ''Hello'',
            words = Some [\<lparr>wtext = ''Hello'', startTime = 12.34, endTime = 12.84\<rparr>],
            translation = None, isPreciseTiming = True, duration = None\<rparr>,
          plainLine 12.34 []]"
proof -
  have c: "closestBucket [(yrcMain, [])] (plainEntry 12.34 [] 1) = Some (0, 0)"
    by (simp add: closestBucket_def closestStep_def yrcMain_def plainEntry_def)
  have a: "assignOthers exampleUtils [yrcMain, plainEntry 12.34 [] 1]
       = ([(yrcMain, [])], [plainEntry 12.34 [] 1])"
    by (simp add: assignOthers_def assignLine_def closestBucket_def closestStep_def
        pushTranslation_def yrcMain_def plainEntry_def exampleUtils_def displayTextSpec_def Let_def)
  have b: "bucketLine exampleUtils (yrcMain, [])
       = [(\<lparr>time = 12.34, ltext = ''Hello'',
            words = Some [\<lparr>wtext = ''Hello'', startTime = 12.34, endTime = 12.84\<rparr>],
            translation = None, isPreciseTiming = True, duration = None\<rparr>, 0)]"
    by (simp add: bucketLine_def yrcMain_def exampleUtils_def displayTextSpec_def trim_def
        isSpace_def orElse_def wordsField_def Let_def)
  have o: "orphanLine exampleUtils (plainEntry 12.34 [] 1) = [(plainLine 12.34 [], 1)]"
    by (simp add: orphanLine_def plainEntry_def plainLine_def exampleUtils_def
        displayTextSpec_def orElse_def wordsField_def)
  have m: "mergeYrcWithTranslations exampleUtils [yrcMain, plainEntry 12.34 [] 1]
       = [\<lparr>time = 12.34, ltext = ''Hello'',
            words = Some [\<lparr>wtext = ''Hello'', startTime = 12.34, endTime = 12.84\<rparr>],
            translation = None, isPreciseTiming = True, duration = None\<rparr>,
          plainLine 12.34 []]"
    unfolding mergeYrcWithTranslations_def a prod.case Let_def list.map concat.simps b o
    by (simp add: sortBy_def compareResult_def plainLine_def)
  have p: "parseNeteaseLyrics exampleUtils emptyTextContent
       = Some [\<lparr>time = 12.34, ltext = ''Hello'',
            words = Some [\<lparr>wtext = ''Hello'', startTime = 12.34, endTime = 12.84\<rparr>],
            translation = None, isPreciseTiming = True, duration = None\<rparr>,
          plainLine 12.34 []]"
    unfolding emptyText_lyrics m by (rule refl)
  have h: "\<not> isMetadata (plainEntry 12.34 [] 1) \<and> tagCount (plainEntry 12.34 [] 1) < 1000"
    by (simp add: plainEntry_def)
  from h c a m emptyText_parsed p show ?thesis by blast
qed

section \<open>Order of the output\<close>

lemma compare_sameKey:
  "sameKey p a \<Longrightarrow> sameKey q b \<Longrightarrow> compareResult eps p q = compareEntries eps a b"
  by (auto simp: sameKey_def compareResult_def compareEntries_def Let_def)

lemma compareEntries_total: "totalCmp (compareEntries eps)"
  unfolding totalCmp_def
proof (intro allI)
  fix a b
  show "compareEntries eps a b \<le> 0 \<or> compareEntries eps b a \<le> 0"
  proof (cases "\<bar>ptime a - ptime b\<bar> > eps")
    case True
    then have "\<bar>ptime b - ptime a\<bar> > eps" by simp
    with True show ?thesis by (simp add: compareEntries_def Let_def) linarith
  next
    case False
    then have "\<not> \<bar>ptime b - ptime a\<bar> > eps" by simp
    with False show ?thesis by (simp add: compareEntries_def Let_def) linarith
  qed
qed

lemma compareResult_total: "totalCmp (compareResult eps)"
  unfolding totalCmp_def
proof (intro allI)
  fix a b :: "LyricLine \<times> nat"
  show "compareResult eps a b \<le> 0 \<or> compareResult eps b a \<le> 0"
  proof (cases "\<bar>time (fst a) - time (fst b)\<bar> > eps")
    case True
    then have "\<bar>time (fst b) - time (fst a)\<bar> > eps" by simp
    with True show ?thesis by (simp add: compareResult_def Let_def) linarith
  next
    case False
    then have "\<not> \<bar>time (fst b) - time (fst a)\<bar> > eps" by simp
    with False show ?thesis by (simp add: compareResult_def Let_def) linarith
  qed
qed

lemma transOn_keys:
  assumes tr: "transOn (compareEntries eps) E"
    and k: "\<forall>p\<in>A. \<exists>e\<in>E. sameKey p e"
  shows "transOn (compareResult eps) A"
  unfolding transOn_def
proof (intro ballI impI)
  fix p q r assume pA: "p \<in> A" and qA: "q \<in> A" and rA: "r \<in> A"
    and c: "compareResult eps p q \<le> 0 \<and> compareResult eps q r \<le> 0"
  from k pA obtain a where a: "a \<in> E" "sameKey p a" by blast
  from k qA obtain b where b: "b \<in> E" "sameKey q b" by blast
  from k rA obtain d where d: "d \<in> E" "sameKey r d" by blast
  from c have "compareEntries eps a b \<le> 0" "compareEntries eps b d \<le> 0"
    using compare_sameKey [OF a(2) b(2)] compare_sameKey [OF b(2) d(2)] by simp_all
  with tr a(1) b(1) d(1) have "compareEntries eps a d \<le> 0"
    unfolding transOn_def by blast
  then show "compareResult eps p r \<le> 0"
    using compare_sameKey [OF a(2) d(2)] by simp
qed

lemma groupLine_keys:
  assumes "g \<noteq> []" "p \<in> set (groupLine U g)"
  shows "\<exists>e\<in>set g. sameKey p e"
proof -
  from assms(2) have "p = (\<lparr>time = ptime (mainEntry U g), ltext = mainTextOf U (mainEntry U g),
              words = wordsField (mainEntry U g),
              translation = (if translationParts U g = [] then None
                             else Some (joinNl (translationParts U g))),
              isPreciseTiming = False, duration = None\<rparr>,
             originalIndex (mainEntry U g))"
    by (simp add: groupLine_eq split: if_splits)
  then have "sameKey p (mainEntry U g)" by (simp add: sameKey_def)
  with mainEntry_priority(1) [OF assms(1)] show ?thesis by blast
qed

lemma groupLine_short: "length (groupLine U g) \<le> 1"
  by (simp add: groupLine_eq)

lemma sorted_wrt_short: "length xs \<le> 1 \<Longrightarrow> sorted_wrt R xs"
  by (cases xs) (simp_all add: Suc_le_eq)

lemma groupLoop_sorted:
  assumes "sorted_wrt (\<lambda>a b. compareEntries eps a b \<le> 0) es"
  shows "sorted_wrt (\<lambda>p q. compareResult eps p q \<le> 0) (groupLoop U es)
         \<and> (\<forall>p\<in>set (groupLoop U es). \<exists>e\<in>set es. sameKey p e)"
  using assms
proof (induction U es rule: groupLoop.induct)
  case (1 U)
  then show ?case by simp
next
  case (2 U current rest)
  let ?g = "current # takeWhile (withinGroup current) rest"
  let ?rest' = "dropWhile (withinGroup current) rest"
  have split: "current # rest = ?g @ ?rest'" by simp
  from "2.prems" have s: "sorted_wrt (\<lambda>a b. compareEntries eps a b \<le> 0) (?g @ ?rest')"
    by (simp only: split [symmetric])
  then have sr: "sorted_wrt (\<lambda>a b. compareEntries eps a b \<le> 0) ?rest'"
    and cross: "\<forall>a\<in>set ?g. \<forall>b\<in>set ?rest'. compareEntries eps a b \<le> 0"
    unfolding sorted_wrt_append by blast+
  from "2.IH" [OF sr]
  have ih1: "sorted_wrt (\<lambda>p q. compareResult eps p q \<le> 0) (groupLoop U ?rest')"
    and ih2: "\<forall>p\<in>set (groupLoop U ?rest'). \<exists>e\<in>set ?rest'. sameKey p e"
    by blast+
  have gk: "\<forall>p\<in>set (groupLine U ?g). \<exists>e\<in>set ?g. sameKey p e"
    using groupLine_keys [of ?g _ U] by blast
  have x: "\<forall>p\<in>set (groupLine U ?g). \<forall>q\<in>set (groupLoop U ?rest'). compareResult eps p q \<le> 0"
  proof (intro ballI)
    fix p q assume "p \<in> set (groupLine U ?g)" "q \<in> set (groupLoop U ?rest')"
    with gk ih2 obtain a b where a: "a \<in> set ?g" "sameKey p a"
      and b: "b \<in> set ?rest'" "sameKey q b"
      by blast
    from cross a(1) b(1) have "compareEntries eps a b \<le> 0" by blast
    with compare_sameKey [OF a(2) b(2)] show "compareResult eps p q \<le> 0" by simp
  qed
  have eq: "groupLoop U (current # rest) = groupLine U ?g @ groupLoop U ?rest'"
    by simp
  have "sorted_wrt (\<lambda>p q. compareResult eps p q \<le> 0) (groupLoop U (current # rest))"
    unfolding eq sorted_wrt_append
    using sorted_wrt_short [OF groupLine_short] ih1 x by blast
  moreover have "\<forall>p\<in>set (groupLoop U (current # rest)). \<exists>e\<in>set (current # rest). sameKey p e"
  proof
    fix p assume "p \<in> set (groupLoop U (current # rest))"
    then consider "p \<in> set (groupLine U ?g)" | "p \<in> set (groupLoop U ?rest')"
      unfolding eq by auto
    then show "\<exists>e\<in>set (current # rest). sameKey p e"
    proof cases
      case 1
      with gk obtain e where e: "e \<in> set ?g" "sameKey p e" by blast
      from e(1) have "e \<in> set (current # rest)"
        by (auto dest: set_takeWhileD)
      with e(2) show ?thesis by blast
    next
      case 2
      with ih2 obtain e where e: "e \<in> set ?rest'" "sameKey p e" by blast
      from e(1) have "e \<in> set (current # rest)"
        by (auto dest: set_dropWhileD)
      with e(2) show ?thesis by blast
    qed
  qed
  ultimately show ?case by blast
qed

lemma bucketLine_keys: "p \<in> set (bucketLine U b) \<Longrightarrow> sameKey p (fst b)"
  by (cases b) (auto simp: bucketLine_def Let_def sameKey_def split: if_splits)

lemma orphanLine_keys: "p \<in> set (orphanLine U e) \<Longrightarrow> sameKey p e"
  by (auto simp: orphanLine_def sameKey_def split: if_splits)

lemma yrc_result_keys:
  assumes a: "assignOthers U entries = (buckets, orphans)"
    and p: "p \<in> set (concat (map (bucketLine U) buckets) @ concat (map (orphanLine U) orphans))"
  shows "\<exists>e\<in>set entries. sameKey p e"
proof -
  note eq = assignOthers_eq [OF a]
  from p consider b where "b \<in> set buckets" "p \<in> set (bucketLine U b)"
    | e where "e \<in> set orphans" "p \<in> set (orphanLine U e)"
    by auto
  then show ?thesis
  proof cases
    case 1
    from 1(1) have "fst b \<in> set (map fst buckets)" by simp
    with eq have "fst b \<in> set entries" by simp
    with bucketLine_keys [OF 1(2)] show ?thesis by blast
  next
    case 2
    from 2(1) eq have "e \<in> set entries" by simp
    with orphanLine_keys [OF 2(2)] show ?thesis by blast
  qed
qed

lemma yrc_sorted:
  assumes tr: "transOn (compareEntries 0.001) (set entries)"
    and a: "assignOthers U entries = (buckets, orphans)"
  shows "sorted_wrt (\<lambda>p q. compareResult 0.001 p q \<le> 0)
           (sortBy (compareResult 0.001)
              (concat (map (bucketLine U) buckets) @ concat (map (orphanLine U) orphans)))"
proof -
  let ?result = "concat (map (bucketLine U) buckets) @ concat (map (orphanLine U) orphans)"
  have "\<forall>p\<in>set ?result. \<exists>e\<in>set entries. sameKey p e"
    using yrc_result_keys [OF a] by blast
  from transOn_keys [OF tr this] have "transOn (compareResult 0.001) (set ?result)" .
  from sorted_sortBy [OF compareResult_total this] show ?thesis .
qed

lemma basic_sorted:
  assumes "sorted_wrt (\<lambda>a b. compareEntries eps a b \<le> 0) es"
  shows "sorted_wrt (\<lambda>p q. compareResult eps p q \<le> 0)
           (map (\<lambda>e. (basicLine U e, originalIndex e)) (filter P es))"
proof -
  have k: "sameKey (basicLine U e, originalIndex e) e" for e
    by (simp add: sameKey_def basicLine_def)
  have "sorted_wrt (\<lambda>a b. compareEntries eps a b \<le> 0) (filter P es)"
    using assms by (rule sorted_wrt_filter)
  then have "sorted_wrt (\<lambda>a b. compareResult eps (basicLine U a, originalIndex a)
                                   (basicLine U b, originalIndex b) \<le> 0) (filter P es)"
    using compare_sameKey [OF k k] by simp
  then show ?thesis by (simp add: sorted_wrt_map)
qed

lemma sorted_entries:
  "transOn (compareEntries eps) (set parsed) \<Longrightarrow>
     sorted_wrt (\<lambda>a b. compareEntries eps a b \<le> 0) (sortBy (compareEntries eps) parsed)"
  by (rule sorted_sortBy [OF compareEntries_total])

lemma compareResult_le:
  assumes "0 \<le> eps"
  shows "(compareResult eps p q \<le> 0)
     = (if \<bar>time (fst p) - time (fst q)\<bar> > eps then time (fst p) < time (fst q)
        else snd p \<le> snd q)"
  using assms by (auto simp: compareResult_def Let_def)

lemma compareResult_bound:
  assumes "0 \<le> eps" "compareResult eps p q \<le> 0"
  shows "time (fst p) \<le> time (fst q) + eps"
  using assms by (auto simp: compareResult_le split: if_splits)

lemma wordsCore_endTime:
  "wordsCore (map_option (map (\<lambda>w. if P w then w\<lparr>endTime := t\<rparr> else w)) ws) = wordsCore ws"
proof (cases ws)
  case None
  then show ?thesis by (simp add: wordsCore_def)
next
  case (Some l)
  have "map (\<lambda>w. (wtext w, startTime w)) (map (\<lambda>w. if P w then w\<lparr>endTime := t\<rparr> else w) l)
          = map (\<lambda>w. (wtext w, startTime w)) l"
    by (induction l) simp_all
  with Some show ?thesis by (simp add: wordsCore_def)
qed

lemma fixWordEndTimes_core: "map lineCore (fixWordEndTimes ls) = map lineCore ls"
  by (induction ls rule: fixWordEndTimes.induct) (simp_all add: lineCore_def wordsCore_endTime)

lemma processLyricsDurations_core: "map lineCore (processLyricsDurations U ls) = map lineCore ls"
  by (induction U ls rule: processLyricsDurations.induct) (simp_all add: lineCore_def)

lemma attachTranslation_core: "lineCore (attachTranslation l e) = lineCore l"
  by (simp add: attachTranslation_eq lineCore_def split: option.splits)

lemma mergeLines_core: "map lineCore (mergeLines U m ls) = map lineCore ls"
  by (induction ls arbitrary: m) (auto simp: attachTranslation_core split: prod.splits)

lemma mergeTranslations_core:
  "mergeTranslations U ls tc = Some out \<Longrightarrow> map lineCore out = map lineCore ls"
  by (auto simp: mergeTranslations_def mergeLines_core split: if_splits Option.bind_splits)

lemma parseLyrics_cores:
  assumes p: "(if isNeteaseFormat content then parseNeteaseLyrics U content
               else parseLrc U content) = Some ls"
    and nb: "\<not> (content = [] \<or> length (trim content) = 0)"
  shows "\<exists>out. parseLyrics U content tc = Some out \<and> map lineCore out = map lineCore ls"
proof -
  let ?cond = "case tc of Some c \<Rightarrow> c \<noteq> [] \<and> length (trim c) > 0 | None \<Rightarrow> False"
  obtain merged where m: "(if ?cond then mergeTranslations U ls tc else Some ls) = Some merged"
    using mergeTranslations_total [of U ls tc] by (cases ?cond) auto
  then have t: "map lineCore merged = map lineCore ls"
    by (cases ?cond) (auto dest: mergeTranslations_core)
  have "parseLyrics U content tc = Some (processLyricsDurations U merged)"
    using p nb m by (simp add: parseLyrics_def)
  with t show ?thesis by (simp add: processLyricsDurations_core)
qed

lemma groupLine_key:
  "map lineKey (groupLine U g)
     = map (entryKey U False) (filter (\<lambda>e. \<not> isMetadata e) [mainEntry U g])"
  by (simp add: groupLine_eq lineKey_def entryKey_def lineCore_def entryCore_def)

lemma bucketLine_key:
  "tagCount (fst b) \<ge> 1000 \<Longrightarrow>
     map lineKey (bucketLine U b)
       = map (entryKey U True) (filter (\<lambda>e. \<not> isMetadata e) [fst b])"
  by (cases b)
    (simp add: bucketLine_def lineKey_def entryKey_def lineCore_def entryCore_def mainTextOf_def
      Let_def)

lemma orphanLine_key:
  "tagCount e < 1000 \<Longrightarrow>
     map lineKey (orphanLine U e) = map (entryKey U True) (filter (\<lambda>e. \<not> isMetadata e) [e])"
  by (simp add: orphanLine_def lineKey_def entryKey_def lineCore_def entryCore_def mainTextOf_def)

lemma basicLine_key: "lineKey (basicLine U e, originalIndex e) = entryKey U False e"
  by (simp add: basicLine_def lineKey_def entryKey_def lineCore_def entryCore_def mainTextOf_def)

lemma concat_keys:
  assumes "\<forall>x\<in>set xs. map lineKey (f x) = map k (filter P [g x])"
  shows "map lineKey (concat (map f xs)) = map k (filter P (map g xs))"
  using assms by (induction xs) simp_all

lemma mains_mset:
  assumes "\<forall>g\<in>set gs. h g \<in> set g"
  shows "mset (filter P (map h gs)) \<subseteq># mset (concat gs)"
  using assms
proof (induction gs)
  case Nil
  then show ?case by simp
next
  case (Cons g gs)
  then have ih: "mset (filter P (map h gs)) \<subseteq># mset (concat gs)" by simp
  from Cons.prems have "h g \<in># mset g" by simp
  then have "{#h g#} \<subseteq># mset g" by simp
  moreover have "mset (filter P [h g]) \<subseteq># {#h g#}" by simp
  ultimately have hd: "mset (filter P [h g]) \<subseteq># mset g"
    by (rule subset_mset.order_trans [rotated])
  have e1: "filter P (map h (g # gs)) = filter P [h g] @ filter P (map h gs)" by simp
  have e2: "concat (g # gs) = g @ concat gs" by simp
  show ?case
    unfolding e1 e2 mset_append by (rule subset_mset.add_mono [OF hd ih])
qed

lemma groupLoop_keys:
  "mset (map lineKey (groupLoop U es)) \<subseteq># mset (map (entryKey U False) es)"
proof -
  have eq: "map lineKey (groupLoop U es)
          = map (entryKey U False) (filter (\<lambda>e. \<not> isMetadata e) (map (mainEntry U) (groupsOf es)))"
    unfolding groupLoop_groupsOf by (rule concat_keys) (simp add: groupLine_key)
  have "\<forall>g\<in>set (groupsOf es). mainEntry U g \<in> set g"
    using groupsOf_members mainEntry_priority(1) by blast
  then have m: "mset (filter (\<lambda>e. \<not> isMetadata e) (map (mainEntry U) (groupsOf es)))
                  \<subseteq># mset (concat (groupsOf es))"
    by (rule mains_mset)
  have "mset (map (entryKey U False)
                (filter (\<lambda>e. \<not> isMetadata e) (map (mainEntry U) (groupsOf es))))
          \<subseteq># mset (map (entryKey U False) (concat (groupsOf es)))"
    unfolding mset_map by (rule image_mset_subseteq_mono [OF m])
  then show ?thesis unfolding eq concat_groupsOf .
qed

lemma partition_mset:
  "mset (filter A (filter P xs)) + mset (filter B (filter C (filter (\<lambda>x. \<not> P x) xs)))
     \<subseteq># mset xs"
proof -
  have a: "mset (filter A (filter P xs)) \<subseteq># mset (filter P xs)"
    unfolding mset_filter by (rule multiset_filter_subset)
  have "mset (filter B (filter C (filter (\<lambda>x. \<not> P x) xs)))
          \<subseteq># mset (filter C (filter (\<lambda>x. \<not> P x) xs))"
    unfolding mset_filter by (rule multiset_filter_subset)
  moreover have "mset (filter C (filter (\<lambda>x. \<not> P x) xs)) \<subseteq># mset (filter (\<lambda>x. \<not> P x) xs)"
    unfolding mset_filter by (rule multiset_filter_subset)
  ultimately have b: "mset (filter B (filter C (filter (\<lambda>x. \<not> P x) xs)))
          \<subseteq># mset (filter (\<lambda>x. \<not> P x) xs)"
    by (rule subset_mset.order_trans)
  have c: "mset (filter P xs) + mset (filter (\<lambda>x. \<not> P x) xs) = mset xs"
    unfolding mset_filter by (rule multiset_partition [symmetric])
  from subset_mset.add_mono [OF a b] show ?thesis unfolding c .
qed

lemma yrc_result_mset:
  assumes a: "assignOthers U entries = (buckets, orphans)"
  shows "mset (map lineKey (concat (map (bucketLine U) buckets)
                              @ concat (map (orphanLine U) orphans)))
           \<subseteq># mset (map (entryKey U True) entries)"
proof -
  note eq = assignOthers_eq [OF a]
  let ?P = "\<lambda>e. tagCount e \<ge> 1000"
  let ?nm = "\<lambda>e. \<not> isMetadata e"
  from eq have mb: "map fst buckets = filter ?P entries" by blast
  from eq obtain Q where orph: "orphans = filter Q (filter (\<lambda>e. tagCount e < 1000) entries)"
    by blast
  have lt: "(\<lambda>e. tagCount e < 1000) = (\<lambda>e. \<not> ?P e)" by (auto simp: not_le)
  have "\<forall>b\<in>set buckets. ?P (fst b)"
  proof
    fix b assume "b \<in> set buckets"
    then have "fst b \<in> set (map fst buckets)" by simp
    with mb show "?P (fst b)" by simp
  qed
  then have kb: "map lineKey (concat (map (bucketLine U) buckets))
                  = map (entryKey U True) (filter ?nm (map fst buckets))"
    by (intro concat_keys) (simp add: bucketLine_key)
  have "\<forall>e\<in>set orphans. tagCount e < 1000" using orph by simp
  then have "map lineKey (concat (map (orphanLine U) orphans))
                  = map (entryKey U True) (filter ?nm (map (\<lambda>e. e) orphans))"
    by (intro concat_keys) (simp add: orphanLine_key)
  then have ko: "map lineKey (concat (map (orphanLine U) orphans))
                  = map (entryKey U True) (filter ?nm orphans)"
    by simp
  have "mset (filter ?nm (map fst buckets)) + mset (filter ?nm orphans) \<subseteq># mset entries"
    unfolding mb orph lt by (rule partition_mset)
  then have "image_mset (entryKey U True)
               (mset (filter ?nm (map fst buckets)) + mset (filter ?nm orphans))
             \<subseteq># image_mset (entryKey U True) (mset entries)"
    by (rule image_mset_subseteq_mono)
  then show ?thesis
    unfolding map_append kb ko mset_append mset_map image_mset_union .
qed


lemma keys_sorted_input:
  "mset (map (entryKey U ws) (sortBy cmp parsed)) = mset (map (entryKey U ws) parsed)"
  unfolding mset_map mset_sortBy by (rule refl)

lemma wordSynced_sorted:
  "list_ex (\<lambda>e. tagCount e \<ge> 1000) (sortBy cmp parsed) = list_ex (\<lambda>e. tagCount e \<ge> 1000) parsed"
  by (simp add: list_ex_iff set_sortBy)

lemma indexed_lines:
  assumes f: "firstPass U content = Some parsed"
    and t1: "transOn (compareEntries 0.01) (set parsed)"
    and t2: "transOn (compareEntries 0.001) (set parsed)"
  shows "\<exists>ls ixd. (if isNeteaseFormat content then parseNeteaseLyrics U content
                   else parseLrc U content) = Some ls
           \<and> map lineCore ls = map (\<lambda>p. lineCore (fst p)) ixd
           \<and> sorted_wrt (\<lambda>p q. compareResult (outputTolerance content parsed) p q \<le> 0) ixd
           \<and> mset (map lineKey ixd)
                 \<subseteq># mset (map (entryKey U (wordSynced content parsed)) parsed)"
proof (cases "isNeteaseFormat content")
  case False
  then have ws: "wordSynced content parsed = False" and tol: "outputTolerance content parsed = 0.01"
    by (simp_all add: wordSynced_def outputTolerance_def)
  from False f have pl: "parseLrcLines U content = Some parsed" by (simp add: firstPass_def)
  let ?es = "sortBy (compareEntries 0.01) parsed"
  let ?ixd = "groupLoop U ?es"
  from groupLoop_sorted [OF sorted_entries [OF t1], of U]
  have s: "sorted_wrt (\<lambda>p q. compareResult 0.01 p q \<le> 0) ?ixd"
    by blast
  have "parseLrc U content
          = Some (processLyricsDurations U (fixWordEndTimes (map fst ?ixd)))"
    using pl by (simp add: parseLrc_def groupAndMergeLines_def Let_def)
  with False have e1: "(if isNeteaseFormat content then parseNeteaseLyrics U content
                   else parseLrc U content)
          = Some (processLyricsDurations U (fixWordEndTimes (map fst ?ixd)))"
    by simp
  have e2: "map lineCore (processLyricsDurations U (fixWordEndTimes (map fst ?ixd)))
          = map (\<lambda>p. lineCore (fst p)) ?ixd"
    by (simp add: processLyricsDurations_core fixWordEndTimes_core comp_def)
  have k: "mset (map lineKey ?ixd) \<subseteq># mset (map (entryKey U False) parsed)"
    using groupLoop_keys [of U ?es] unfolding keys_sorted_input .
  from e1 e2 s k show ?thesis unfolding ws tol by blast
next
  case True
  with f have pl: "parseNeteaseLines U content = Some parsed" by (simp add: firstPass_def)
  let ?es = "sortBy (compareEntries 0.01) parsed"
  have pn: "parseNeteaseLyrics U content = Some (neteaseFromEntries U parsed)"
    using pl by (simp add: parseNeteaseLyrics_def)
  from pn True have e1: "(if isNeteaseFormat content then parseNeteaseLyrics U content
                   else parseLrc U content) = Some (neteaseFromEntries U parsed)"
    by simp
  show ?thesis
  proof (cases "list_ex (\<lambda>e. tagCount e \<ge> 1000) ?es")
    case yrc: True
    with True have ws: "wordSynced content parsed = True"
      and tol: "outputTolerance content parsed = 0.001"
      by (simp_all add: wordSynced_def outputTolerance_def wordSynced_sorted)
    obtain buckets orphans where a: "assignOthers U ?es = (buckets, orphans)"
      by (cases "assignOthers U ?es")
    let ?result = "concat (map (bucketLine U) buckets) @ concat (map (orphanLine U) orphans)"
    let ?ixd = "sortBy (compareResult 0.001) ?result"
    have t2': "transOn (compareEntries 0.001) (set ?es)"
      using t2 by (simp add: set_sortBy)
    from yrc_sorted [OF t2' a] have s: "sorted_wrt (\<lambda>p q. compareResult 0.001 p q \<le> 0) ?ixd" .
    have "mset (map lineKey ?ixd) = mset (map lineKey ?result)"
      unfolding mset_map mset_sortBy by (rule refl)
    with yrc_result_mset [OF a]
    have k: "mset (map lineKey ?ixd) \<subseteq># mset (map (entryKey U True) parsed)"
      unfolding keys_sorted_input by simp
    have "neteaseFromEntries U parsed = map fst ?ixd"
      using yrc a by (simp add: neteaseFromEntries_def mergeYrcWithTranslations_def Let_def)
    then have e2: "map lineCore (neteaseFromEntries U parsed) = map (\<lambda>p. lineCore (fst p)) ?ixd"
      by (simp add: comp_def)
    from e1 e2 s k show ?thesis unfolding ws tol by blast
  next
    case noyrc: False
    then have ws: "wordSynced content parsed = False"
      and tol: "outputTolerance content parsed = 0.01"
      by (simp_all add: wordSynced_def outputTolerance_def wordSynced_sorted)
    let ?P = "\<lambda>e. \<not> isMetadata e \<and> hasMeaningfulContent U e"
    let ?ixd = "map (\<lambda>e. (basicLine U e, originalIndex e)) (filter ?P ?es)"
    from basic_sorted [OF sorted_entries [OF t1], of U ?P]
    have s: "sorted_wrt (\<lambda>p q. compareResult 0.01 p q \<le> 0) ?ixd" .
    have km: "map lineKey ?ixd = map (entryKey U False) (filter ?P ?es)"
      by (simp add: basicLine_key)
    have "mset (filter ?P ?es) \<subseteq># mset ?es"
      unfolding mset_filter by (rule multiset_filter_subset)
    then have "mset (map (entryKey U False) (filter ?P ?es)) \<subseteq># mset (map (entryKey U False) ?es)"
      unfolding mset_map by (rule image_mset_subseteq_mono)
    then have k: "mset (map lineKey ?ixd) \<subseteq># mset (map (entryKey U False) parsed)"
      unfolding km keys_sorted_input .
    have "neteaseFromEntries U parsed = map fst ?ixd"
      using noyrc by (simp add: neteaseFromEntries_def Let_def comp_def)
    then have e2: "map lineCore (neteaseFromEntries U parsed) = map (\<lambda>p. lineCore (fst p)) ?ixd"
      by (simp only: map_map comp_def)
    from e1 e2 s k show ?thesis unfolding ws tol by blast
  qed
qed

lemma outputTolerance_nonneg: "0 \<le> outputTolerance content parsed"
  by (simp add: outputTolerance_def)

lemma sorted_lines_bound:
  assumes s: "sorted_wrt (\<lambda>p q. compareResult eps p q \<le> 0) ixd" and e: "0 \<le> eps"
    and t: "map lineCore out = map (\<lambda>p. lineCore (fst p)) ixd"
    and ij: "i < j" "j < length out"
  shows "time (out ! i) \<le> time (out ! j) + eps"
proof -
  have len: "length out = length ixd"
    using t by (metis length_map)
  have c: "lineCore (out ! k) = lineCore (fst (ixd ! k))" if "k < length out" for k
    using t that len by (metis (no_types, lifting) nth_map)
  have ti: "time (out ! i) = time (fst (ixd ! i))"
    using c [of i] ij by (simp add: lineCore_def)
  have tj: "time (out ! j) = time (fst (ixd ! j))"
    using c [of j] ij by (simp add: lineCore_def)
  from sorted_wrt_nth_less [OF s ij(1)] ij(2) len
  have "compareResult eps (ixd ! i) (ixd ! j) \<le> 0" by simp
  from compareResult_bound [OF e this] ti tj show ?thesis by simp
qed

text \<open>
  C3 as amended. Let the comparators of the two sorts, with tolerance 0.01 and 0.001, be
  transitive on the entries of the first pass. Then the lines that \<^verbatim>\<open>parseLyrics\<close>
  returns are, in their order and each with an original index, the lines of different
  entries of the first pass: the pairs of core and index form a part of the multiset of
  such pairs of the entries. In that order the lines are pairwise in the order of the
  comparator of the last sort, whose tolerance is 0.001 when the content goes through the
  word-synced merge and 0.01 otherwise (line-timestamp parser, and the fallback without
  word-synced entries): of two lines the earlier one has the smaller time when the times
  differ by more than the tolerance, and otherwise the original index that is not higher.
  So a later line is never earlier in time by more than the tolerance. The comparator
  reads the time and the original index only.
\<close>

theorem C3_output_order:
  assumes "firstPass U content = Some parsed"
    and "transOn (compareEntries 0.01) (set parsed)"
    and "transOn (compareEntries 0.001) (set parsed)"
  shows "(\<exists>out ixd. parseLyrics U content tc = Some out
           \<and> map lineCore out = map (\<lambda>p. lineCore (fst p)) ixd
           \<and> mset (map lineKey ixd)
                 \<subseteq># mset (map (entryKey U (wordSynced content parsed)) parsed)
           \<and> sorted_wrt (\<lambda>p q. compareResult (outputTolerance content parsed) p q \<le> 0) ixd
           \<and> (\<forall>i j. i < j \<and> j < length out \<longrightarrow>
                 time (out ! i) \<le> time (out ! j) + outputTolerance content parsed))
       \<and> (\<forall>eps p q. 0 \<le> eps \<longrightarrow>
             (compareResult eps p q \<le> 0)
               = (if \<bar>time (fst p) - time (fst q)\<bar> > eps then time (fst p) < time (fst q)
                  else snd p \<le> snd q))"
proof -
  have b: "\<forall>eps p q. 0 \<le> eps \<longrightarrow>
             (compareResult eps p q \<le> 0)
               = (if \<bar>time (fst p) - time (fst q)\<bar> > eps then time (fst p) < time (fst q)
                  else snd p \<le> snd q)"
    using compareResult_le by blast
  have a: "\<exists>out ixd. parseLyrics U content tc = Some out
           \<and> map lineCore out = map (\<lambda>p. lineCore (fst p)) ixd
           \<and> mset (map lineKey ixd)
                 \<subseteq># mset (map (entryKey U (wordSynced content parsed)) parsed)
           \<and> sorted_wrt (\<lambda>p q. compareResult (outputTolerance content parsed) p q \<le> 0) ixd
           \<and> (\<forall>i j. i < j \<and> j < length out \<longrightarrow>
                 time (out ! i) \<le> time (out ! j) + outputTolerance content parsed)"
  proof (cases "content = [] \<or> length (trim content) = 0")
    case True
    then have "parseLyrics U content tc = Some []" by (simp add: parseLyrics_def)
    moreover have "map lineCore [] = map (\<lambda>p. lineCore (fst p)) ([] :: (LyricLine \<times> nat) list)"
      by simp
    moreover have "mset (map lineKey [])
                 \<subseteq># mset (map (entryKey U (wordSynced content parsed)) parsed)"
      by simp
    moreover have "sorted_wrt (\<lambda>p q. compareResult (outputTolerance content parsed) p q \<le> 0)
                     ([] :: (LyricLine \<times> nat) list)"
      by simp
    ultimately show ?thesis by fastforce
  next
    case False
    from indexed_lines [OF assms]
    obtain ls ixd where p: "(if isNeteaseFormat content then parseNeteaseLyrics U content
                   else parseLrc U content) = Some ls"
      and t: "map lineCore ls = map (\<lambda>p. lineCore (fst p)) ixd"
      and s: "sorted_wrt (\<lambda>p q. compareResult (outputTolerance content parsed) p q \<le> 0) ixd"
      and k: "mset (map lineKey ixd)
                 \<subseteq># mset (map (entryKey U (wordSynced content parsed)) parsed)"
      by blast
    from parseLyrics_cores [OF p False, of tc]
    obtain out where o: "parseLyrics U content tc = Some out"
      and ot: "map lineCore out = map lineCore ls"
      by blast
    from ot t have t': "map lineCore out = map (\<lambda>p. lineCore (fst p)) ixd" by simp
    have "\<forall>i j. i < j \<and> j < length out \<longrightarrow>
            time (out ! i) \<le> time (out ! j) + outputTolerance content parsed"
      using sorted_lines_bound [OF s outputTolerance_nonneg t'] by blast
    with o t' s k show ?thesis by blast
  qed
  from a b show ?thesis by blast
qed

lemma transOn_pair:
  assumes "compareEntries eps a b \<le> 0" "\<not> compareEntries eps b a \<le> 0"
    "compareEntries eps a a \<le> 0" "compareEntries eps b b \<le> 0"
  shows "transOn (compareEntries eps) (set [a, b])"
  unfolding transOn_def using assms by auto

lemma close_split:
  "splitNl closeContent = [''[10005,500](10005,500,0)B'', ''[10000,500](10000,500,0)A'']"
  by code_simp

lemma close_trim:
  "trim ''[10005,500](10005,500,0)B'' = ''[10005,500](10005,500,0)B''"
  "trim ''[10000,500](10000,500,0)A'' = ''[10000,500](10000,500,0)A''"
  "trim closeContent = closeContent"
  "isNeteaseFormat closeContent"
  "closeContent \<noteq> []"
  by code_simp+

lemma close_yrc:
  "matchYrcLine ''[10005,500](10005,500,0)B'' = Some (''10005'', ''500'', ''(10005,500,0)B'')"
  "matchAllYrcWords ''(10005,500,0)B'' = [((''10005'', ''500'', ''0''), ''B'')]"
  "matchYrcLine ''[10000,500](10000,500,0)A'' = Some (''10000'', ''500'', ''(10000,500,0)A'')"
  "matchAllYrcWords ''(10000,500,0)A'' = [((''10000'', ''500'', ''0''), ''A'')]"
  by code_simp+

lemma close_ints:
  "parseInt ''10005'' = 10005" "parseInt ''10000'' = 10000" "parseInt ''500'' = 500"
  by (simp_all add: parseInt_def digitVal_def)

lemma close_entries:
  "parseYrcLine exampleUtils ''[10005,500](10005,500,0)B'' 0 = Some (wordEntry 10.005 10.505 ''B'' 0)"
  "parseYrcLine exampleUtils ''[10000,500](10000,500,0)A'' 1 = Some (wordEntry 10 10.5 ''A'' 1)"
  by (simp_all add: parseYrcLine_def close_yrc close_ints yrcWord_def createWord_def
      exampleUtils_def mergePunctuationSpec_def punctuationOnly_def wordEntry_def Let_def
      del: matchAllYrcWords.simps)

lemma close_parsed:
  "firstPass exampleUtils closeContent
     = Some [wordEntry 10.005 10.505 ''B'' 0, wordEntry 10 10.5 ''A'' 1]"
  using close_entries(2)
  by (simp add: firstPass_def close_trim parseNeteaseLines_def parseNeteaseLine_def close_split
      close_entries(1) startsWith_def enumerate_eq_zip)

lemma close_lines:
  "neteaseFromEntries exampleUtils [wordEntry 10.005 10.505 ''B'' 0, wordEntry 10 10.5 ''A'' 1]
     = [wordLine 10 10.5 ''A'', wordLine 10.005 10.505 ''B'']"
  by (simp add: neteaseFromEntries_def sortBy_def compareEntries_def compareResult_def
      mergeYrcWithTranslations_def assignOthers_def
      bucketLine_def wordEntry_def wordLine_def exampleUtils_def displayTextSpec_def trim_def
      isSpace_def orElse_def wordsField_def toLowerCase_def differsFromMain_def Let_def)

lemma close_output:
  "parseLyrics exampleUtils closeContent None
     = Some [(wordLine 10 10.5 ''A'')\<lparr>duration := Some 0.005\<rparr>,
             (wordLine 10.005 10.505 ''B'')\<lparr>duration := Some 5\<rparr>]"
proof -
  have p: "parseNeteaseLines exampleUtils closeContent
     = Some [wordEntry 10.005 10.505 ''B'' 0, wordEntry 10 10.5 ''A'' 1]"
    using close_parsed by (simp add: firstPass_def close_trim)
  have d: "defaultDuration exampleUtils = 5" by (simp add: exampleUtils_def)
  have t: "time (wordLine 10.005 10.505 ''B'') - time (wordLine 10 10.5 ''A'') = 0.005"
    by (simp add: wordLine_def)
  show ?thesis
    using close_lines t
    by (simp add: parseLyrics_def close_trim parseNeteaseLyrics_def p d)
qed

lemma transOn_pair_swap:
  assumes "compareEntries eps a b \<le> 0" "\<not> compareEntries eps b a \<le> 0"
    "compareEntries eps a a \<le> 0" "compareEntries eps b b \<le> 0"
  shows "transOn (compareEntries eps) (set [b, a])"
  unfolding transOn_def using assms by auto

theorem C3_output_order_witness:
  "firstPass exampleUtils closeContent
     = Some [wordEntry 10.005 10.505 ''B'' 0, wordEntry 10 10.5 ''A'' 1]
   \<and> transOn (compareEntries 0.01) (set [wordEntry 10.005 10.505 ''B'' 0, wordEntry 10 10.5 ''A'' 1])
   \<and> transOn (compareEntries 0.001) (set [wordEntry 10.005 10.505 ''B'' 0, wordEntry 10 10.5 ''A'' 1])
   \<and> outputTolerance closeContent [wordEntry 10.005 10.505 ''B'' 0, wordEntry 10 10.5 ''A'' 1]
       = 0.001
   \<and> parseLyrics exampleUtils closeContent None
       = Some [(wordLine 10 10.5 ''A'')\<lparr>duration := Some 0.005\<rparr>,
               (wordLine 10.005 10.505 ''B'')\<lparr>duration := Some 5\<rparr>]
   \<and> (0 :: nat) < 1
   \<and> (1 :: nat) < length [(wordLine 10 10.5 ''A'')\<lparr>duration := Some 0.005\<rparr>,
                           (wordLine 10.005 10.505 ''B'')\<lparr>duration := Some 5\<rparr>]
   \<and> time ([(wordLine 10 10.5 ''A'')\<lparr>duration := Some 0.005\<rparr>,
             (wordLine 10.005 10.505 ''B'')\<lparr>duration := Some 5\<rparr>] ! 0)
       \<le> time ([(wordLine 10 10.5 ''A'')\<lparr>duration := Some 0.005\<rparr>,
                  (wordLine 10.005 10.505 ''B'')\<lparr>duration := Some 5\<rparr>] ! 1) + 0.001"
proof -
  let ?parsed = "[wordEntry 10.005 10.505 ''B'' 0, wordEntry 10 10.5 ''A'' 1]"
  let ?out = "[(wordLine 10 10.5 ''A'')\<lparr>duration := Some 0.005\<rparr>,
               (wordLine 10.005 10.505 ''B'')\<lparr>duration := Some 5\<rparr>]"
  note f = close_parsed
  have t1: "transOn (compareEntries 0.01) (set ?parsed)"
    by (rule transOn_pair) (simp_all add: compareEntries_def wordEntry_def)
  have t2: "transOn (compareEntries 0.001) (set ?parsed)"
    by (rule transOn_pair_swap) (simp_all add: compareEntries_def wordEntry_def)
  have tol: "outputTolerance closeContent ?parsed = 0.001"
    by (simp add: outputTolerance_def wordSynced_def close_trim wordEntry_def)
  note p = close_output
  from C3_output_order [OF f t1 t2, of None] p
  have "\<forall>i j. i < j \<and> j < length ?out
          \<longrightarrow> time (?out ! i) \<le> time (?out ! j) + outputTolerance closeContent ?parsed"
    by auto
  then have "time (?out ! 0) \<le> time (?out ! 1) + outputTolerance closeContent ?parsed"
    by (metis One_nat_def length_Cons lessI list.size(3))
  with f t1 t2 tol p show ?thesis by simp
qed

lemma two_elements: "length xs = 2 \<Longrightarrow> \<exists>a b. xs = [a, b]"
  by (cases xs; simp; case_tac list; simp)

text \<open>
  The order that the theorem leaves for two word-synced entries at the same time: the
  line of the entry with the higher original index cannot come first.
\<close>

lemma same_time_order_determined:
  "\<not> (\<exists>ixd. map lineCore [wordLine 10 10.5 ''B'', wordLine 10 10.5 ''A'']
              = map (\<lambda>p. lineCore (fst p)) ixd
          \<and> mset (map lineKey ixd)
               \<subseteq># mset (map (entryKey exampleUtils True)
                         [wordEntry 10 10.5 ''A'' 0, wordEntry 10 10.5 ''B'' 1])
          \<and> sorted_wrt (\<lambda>p q. compareResult 0.001 p q \<le> 0) ixd)"
proof
  assume "\<exists>ixd. map lineCore [wordLine 10 10.5 ''B'', wordLine 10 10.5 ''A'']
              = map (\<lambda>p. lineCore (fst p)) ixd
          \<and> mset (map lineKey ixd)
               \<subseteq># mset (map (entryKey exampleUtils True)
                         [wordEntry 10 10.5 ''A'' 0, wordEntry 10 10.5 ''B'' 1])
          \<and> sorted_wrt (\<lambda>p q. compareResult 0.001 p q \<le> 0) ixd"
  then obtain ixd where m: "map lineCore [wordLine 10 10.5 ''B'', wordLine 10 10.5 ''A'']
              = map (\<lambda>p. lineCore (fst p)) ixd"
    and k: "mset (map lineKey ixd)
               \<subseteq># mset (map (entryKey exampleUtils True)
                         [wordEntry 10 10.5 ''A'' 0, wordEntry 10 10.5 ''B'' 1])"
    and s: "sorted_wrt (\<lambda>p q. compareResult 0.001 p q \<le> 0) ixd"
    by blast
  from m have "length ixd = 2" by (metis length_map length_Cons list.size(3) numeral_2_eq_2)
  then obtain p q where i: "ixd = [p, q]" using two_elements by blast
  from m i have cp: "lineCore (fst p) = lineCore (wordLine 10 10.5 ''B'')"
    and cq: "lineCore (fst q) = lineCore (wordLine 10 10.5 ''A'')" by simp_all
  from k i have "lineKey p \<in># mset (map (entryKey exampleUtils True)
                         [wordEntry 10 10.5 ''A'' 0, wordEntry 10 10.5 ''B'' 1])"
    by (auto dest: mset_subset_eqD [where x = "lineKey p"])
  then have "snd p = 1"
    using cp by (auto simp: lineKey_def entryKey_def entryCore_def lineCore_def wordLine_def
        wordEntry_def mainTextOf_def exampleUtils_def displayTextSpec_def orElse_def Let_def
        trim_def isSpace_def)
  moreover from k i have "lineKey q \<in># mset (map (entryKey exampleUtils True)
                         [wordEntry 10 10.5 ''A'' 0, wordEntry 10 10.5 ''B'' 1])"
    by (auto dest: mset_subset_eqD [where x = "lineKey q"])
  then have "snd q = 0"
    using cq by (auto simp: lineKey_def entryKey_def entryCore_def lineCore_def wordLine_def
        wordEntry_def mainTextOf_def exampleUtils_def displayTextSpec_def orElse_def Let_def
        trim_def isSpace_def)
  moreover from s i have "compareResult 0.001 p q \<le> 0" by simp
  moreover from cp cq have "time (fst p) = time (fst q)"
    by (simp add: lineCore_def wordLine_def)
  ultimately show False by (simp add: compareResult_def)
qed

text \<open>
  C3 as stated fails on the four lines \<^verbatim>\<open>[00:10.000]\<close>, \<^verbatim>\<open>[00:10.099]Q\<close>,
  \<^verbatim>\<open>[00:10.101]\<close>, \<^verbatim>\<open>[00:10.096]S\<close>: the second group opens with the empty entry
  at 10.101 and its main entry is the one at 10.096, so the line at 10.099 is followed by
  a line at 10.096.
\<close>

theorem C3_sorted_by_time_counterexample:
  "parseLyrics exampleUtils unsortedContent None
     = Some [(plainLine 10.099 ''Q'')\<lparr>duration := Some (10.096 - 10.099)\<rparr>,
             (plainLine 10.096 ''S'')\<lparr>duration := Some 5\<rparr>]
   \<and> time ((plainLine 10.096 ''S'')\<lparr>duration := Some 5\<rparr>)
       < time ((plainLine 10.099 ''Q'')\<lparr>duration := Some (10.096 - 10.099)\<rparr>)"
proof -
  have "parseLyrics exampleUtils unsortedContent None
     = Some [(plainLine 10.099 ''Q'')\<lparr>duration := Some (10.096 - 10.099)\<rparr>,
             (plainLine 10.096 ''S'')\<lparr>duration := Some 5\<rparr>]"
    by code_simp
  then show ?thesis by (simp add: plainLine_def)
qed

end
